theory Spec2Isabelle
  imports Main "HOL-Library.AList"
begin

section \<open>JavaScript strings\<close>

text \<open>
  A JavaScript string is a sequence of UTF-16 code units. The model uses \<^typ>\<open>string\<close>,
  reading each \<^typ>\<open>char\<close> as one code unit in the range 0..255; code units above that
  range are outside the model. The plugin compares code units only with \<open>v a r ( , ) $ & ` '\<close>
  and tests them for white space; every other code unit is copied as it is.
\<close>

text \<open>
  \<open>String.prototype.trim\<close> removes white space and line terminators from both ends.
  Below 256 these are TAB, LF, VT, FF, CR, SPACE and NO-BREAK SPACE.
\<close>

definition is_space :: "char \<Rightarrow> bool" where
  "is_space c = (c \<in> set [CHR 0x09, CHR 0x0A, CHR 0x0B, CHR 0x0C, CHR 0x0D, CHR 0x20, CHR 0xA0])"

definition trim :: "string \<Rightarrow> string" where
  "trim s = rev (dropWhile is_space (rev (dropWhile is_space s)))"

text \<open>\<open>s.startsWith(p)\<close>.\<close>

definition startsWith :: "string \<Rightarrow> string \<Rightarrow> bool" where
  "startsWith s p = (take (length p) s = p)"

text \<open>\<open>s.slice(a, b)\<close> for non-negative \<open>a\<close> and \<open>b\<close>: empty when \<open>b \<le> a\<close>, cut at the end of \<open>s\<close>.\<close>

definition slice :: "string \<Rightarrow> nat \<Rightarrow> nat \<Rightarrow> string" where
  "slice s a b = take (b - a) (drop a s)"

text \<open>
  \<open>indexOf s pat i\<close> is the position, counted from \<open>i\<close> at the head of \<open>s\<close>, of the first
  occurrence of \<open>pat\<close> in \<open>s\<close>.
\<close>

fun indexOf :: "string \<Rightarrow> string \<Rightarrow> nat \<Rightarrow> nat option" where
  "indexOf [] pat i = (if pat = [] then Some i else None)"
| "indexOf (c # cs) pat i =
     (if startsWith (c # cs) pat then Some i else indexOf cs pat (Suc i))"

text \<open>
  The abstract operation GetSubstitution of ECMAScript for a string pattern (no capture
  groups, no named groups): in the replacement text \<open>$$\<close> stands for \<open>$\<close>, \<open>$&\<close> for the
  matched text, \<open>$`\<close> for the text before the match and \<open>$'\<close> for the text after it. Every
  other character, also a \<open>$\<close> followed by a digit or by \<open><\<close>, is copied.
\<close>

fun getSubstitution :: "string \<Rightarrow> string \<Rightarrow> nat \<Rightarrow> string \<Rightarrow> string" where
  "getSubstitution matched str pos [] = []"
| "getSubstitution matched str pos [c] = [c]"
| "getSubstitution matched str pos (c # d # t) =
     (if c = CHR ''$'' then
        (if d = CHR ''$'' then CHR ''$'' # getSubstitution matched str pos t
         else if d = CHR ''&'' then matched @ getSubstitution matched str pos t
         else if d = CHR 0x60 then take pos str @ getSubstitution matched str pos t
         else if d = CHR 0x27 then
           drop (pos + length matched) str @ getSubstitution matched str pos t
         else c # getSubstitution matched str pos (d # t))
      else c # getSubstitution matched str pos (d # t))"

text \<open>
  \<open>s.replace(pat, rep)\<close> with a string pattern: only the first occurrence of \<open>pat\<close> is
  replaced, and \<open>s\<close> is returned as it is when \<open>pat\<close> does not occur.
\<close>

definition replace :: "string \<Rightarrow> string \<Rightarrow> string \<Rightarrow> string" where
  "replace s pat rep =
     (case indexOf s pat 0 of
        None \<Rightarrow> s
      | Some i \<Rightarrow> take i s @ getSubstitution pat s i rep @ drop (i + length pat) s)"

text \<open>\<open>parts.join(sep)\<close>.\<close>

fun join :: "string list \<Rightarrow> string \<Rightarrow> string" where
  "join [] sep = []"
| "join [x] sep = x"
| "join (x # y # ys) sep = x @ sep @ join (y # ys) sep"

section \<open>The pattern \<open>/var\(([^,)]+)(?:,([^)]+))?\)/g\<close>\<close>

text \<open>
  One result of \<open>varRegex.exec\<close>: the position of the match, the matched text, the first
  group (the variable name as written) and the second group (the fallback clause as written,
  \<open>undefined\<close> when the optional group did not take part).
\<close>

record rmatch =
  m_index :: nat
  fullMatch :: string
  group1 :: string
  group2 :: "string option"

text \<open>
  Matching at one fixed position. The pattern is the literal \<open>var(\<close>, a greedy non-empty run
  of characters other than \<open>,\<close> and \<open>)\<close>, optionally a \<open>,\<close> with a greedy non-empty run of
  characters other than \<open>)\<close>, and a closing \<open>)\<close>. Backtracking never helps: a shorter first
  run is followed by a character of the run itself, which is neither \<open>,\<close> nor \<open>)\<close>, and a
  shorter second run is followed by a character that is not \<open>)\<close>. So the match at a position
  is decided by the two maximal runs.
\<close>

definition match_here :: "string \<Rightarrow> (string \<times> string \<times> string option) option" where
  "match_here s =
     (if \<not> startsWith s ''var('' then None
      else
        let r = drop 4 s;
            n = takeWhile (\<lambda>c. c \<noteq> CHR '','' \<and> c \<noteq> CHR '')'') r;
            r1 = dropWhile (\<lambda>c. c \<noteq> CHR '','' \<and> c \<noteq> CHR '')'') r
        in if n = [] then None
           else (case r1 of
                   [] \<Rightarrow> None
                 | c # r2 \<Rightarrow>
                     if c = CHR '')'' then Some (''var('' @ n @ '')'', n, None)
                     else
                       let f = takeWhile (\<lambda>c. c \<noteq> CHR '')'') r2;
                           r3 = dropWhile (\<lambda>c. c \<noteq> CHR '')'') r2
                       in if f = [] \<or> r3 = [] then None
                          else Some (''var('' @ n @ '','' @ f @ '')'', n, Some f)))"

text \<open>The leftmost position at or after \<open>i\<close> where the pattern matches; \<open>s\<close> is the text from \<open>i\<close> on.\<close>

fun regex_search :: "string \<Rightarrow> nat \<Rightarrow> rmatch option" where
  "regex_search [] i = None"
| "regex_search (c # cs) i =
     (case match_here (c # cs) of
        Some (f, n, fb) \<Rightarrow> Some \<lparr>m_index = i, fullMatch = f, group1 = n, group2 = fb\<rparr>
      | None \<Rightarrow> regex_search cs (Suc i))"

text \<open>\<open>varRegex.exec(s)\<close> with \<open>varRegex.lastIndex = lastIndex\<close>; \<open>None\<close> is \<open>null\<close>.\<close>

definition regex_exec :: "string \<Rightarrow> nat \<Rightarrow> rmatch option" where
  "regex_exec s lastIndex =
     (if length s < lastIndex then None else regex_search (drop lastIndex s) lastIndex)"

lemma startsWith_var_split: "startsWith s ''var('' \<Longrightarrow> s = ''var('' @ drop 4 s"
proof -
  assume sw: "startsWith s ''var(''"
  have l4: "length ''var('' = 4" by simp
  from sw have t4: "take 4 s = ''var(''"
    by (simp only: startsWith_def l4)
  show ?thesis
    by (rule trans [OF append_take_drop_id [of 4 s, symmetric]]) (simp only: t4)
qed

lemma takeWhile_all: "\<forall>c\<in>set (takeWhile P xs). P c"
  by (auto dest: set_takeWhileD)

lemma dropWhile_head: "dropWhile P xs = c # r \<Longrightarrow> \<not> P c"
  using hd_dropWhile [of P xs] by auto

lemma match_here_unfold:
  "match_here s = Some (f, n, fb) \<Longrightarrow>
   startsWith s ''var('' \<and>
   (let n' = takeWhile (\<lambda>c. c \<noteq> CHR '','' \<and> c \<noteq> CHR '')'') (drop 4 s);
        r1 = dropWhile (\<lambda>c. c \<noteq> CHR '','' \<and> c \<noteq> CHR '')'') (drop 4 s)
    in n' \<noteq> [] \<and> n = n' \<and>
       (\<exists>c r2. r1 = c # r2 \<and>
          (if c = CHR '')'' then f = ''var('' @ n' @ '')'' \<and> fb = None
           else let g = takeWhile (\<lambda>c. c \<noteq> CHR '')'') r2;
                    r3 = dropWhile (\<lambda>c. c \<noteq> CHR '')'') r2
                in g \<noteq> [] \<and> r3 \<noteq> [] \<and> f = ''var('' @ n' @ '','' @ g @ '')'' \<and> fb = Some g)))"
  unfolding match_here_def Let_def
  by (auto split: if_splits list.splits)

lemma match_here_cases:
  assumes a: "match_here s = Some (f, n, fb)"
  shows "n \<noteq> [] \<and> (\<forall>c\<in>set n. c \<noteq> CHR '','' \<and> c \<noteq> CHR '')'') \<and>
     ((\<exists>rest. fb = None \<and> f = ''var('' @ n @ '')'' \<and> s = f @ rest) \<or>
      (\<exists>g rest. fb = Some g \<and> g \<noteq> [] \<and> (\<forall>c\<in>set g. c \<noteq> CHR '')'') \<and>
           f = ''var('' @ n @ '','' @ g @ '')'' \<and> s = f @ rest))"
proof -
  let ?p1 = "\<lambda>c. c \<noteq> CHR '','' \<and> c \<noteq> CHR '')''"
  let ?p2 = "\<lambda>c. c \<noteq> CHR '')''"
  from match_here_unfold [OF a] obtain c r2 where
    sw: "startsWith s ''var(''" and n: "n = takeWhile ?p1 (drop 4 s)" and nne: "n \<noteq> []"
    and r1: "dropWhile ?p1 (drop 4 s) = c # r2"
    and br: "if c = CHR '')'' then f = ''var('' @ n @ '')'' \<and> fb = None
           else takeWhile ?p2 r2 \<noteq> [] \<and> dropWhile ?p2 r2 \<noteq> [] \<and>
                f = ''var('' @ n @ '','' @ takeWhile ?p2 r2 @ '')'' \<and> fb = Some (takeWhile ?p2 r2)"
    unfolding Let_def by blast
  have nset: "\<forall>c\<in>set n. ?p1 c" unfolding n by (rule takeWhile_all)
  have "drop 4 s = n @ c # r2"
    unfolding n r1 [symmetric] by (rule takeWhile_dropWhile_id [symmetric])
  with startsWith_var_split [OF sw] have s: "s = ''var('' @ n @ c # r2" by simp
  have chd: "c = CHR '','' \<or> c = CHR '')''" using dropWhile_head [OF r1] by blast
  show ?thesis
  proof (cases "c = CHR '')''")
    case True
    with br have e: "f = ''var('' @ n @ '')''" "fb = None" by simp_all
    with s True have "s = f @ r2" by simp
    with e nne nset show ?thesis by blast
  next
    case False
    with chd have c: "c = CHR '',''" by simp
    define g where "g = takeWhile ?p2 r2"
    from br False have gne: "g \<noteq> []" and r3ne: "dropWhile ?p2 r2 \<noteq> []"
      and e: "f = ''var('' @ n @ '','' @ g @ '')''" "fb = Some g"
      unfolding g_def by simp_all
    obtain d r4 where r3: "dropWhile ?p2 r2 = d # r4" using r3ne by (cases "dropWhile ?p2 r2") simp_all
    from dropWhile_head [OF r3] have d: "d = CHR '')''" by simp
    have gset: "\<forall>c\<in>set g. ?p2 c" unfolding g_def by (rule takeWhile_all)
    have "r2 = g @ d # r4"
      unfolding g_def r3 [symmetric] by (rule takeWhile_dropWhile_id [symmetric])
    with s c d e have "s = f @ r4" by simp
    with e nne nset gne gset show ?thesis by blast
  qed
qed

lemma match_here_length:
  "match_here s = Some (f, n, fb) \<Longrightarrow> 0 < length f \<and> length f \<le> length s"
proof -
  assume a: "match_here s = Some (f, n, fb)"
  from match_here_cases [OF a] obtain rest where s: "s = f @ rest" and f: "f \<noteq> []"
    by fastforce
  from s have "length s = length f + length rest" by (metis length_append)
  with f show ?thesis by simp
qed

lemma regex_search_bounds:
  "regex_search s i = Some m \<Longrightarrow>
     i \<le> m_index m \<and> 0 < length (fullMatch m) \<and> m_index m + length (fullMatch m) \<le> i + length s"
proof (induction s arbitrary: i)
  case Nil
  then show ?case by simp
next
  case (Cons c cs)
  show ?case
  proof (cases "match_here (c # cs)")
    case None
    with Cons.prems have "regex_search cs (Suc i) = Some m" by simp
    from Cons.IH [OF this] show ?thesis by simp
  next
    case (Some t)
    obtain f n fb where t: "t = (f, n, fb)" by (cases t) auto
    from Some t Cons.prems have m: "m = \<lparr>m_index = i, fullMatch = f, group1 = n, group2 = fb\<rparr>"
      by simp
    from match_here_length Some t have "0 < length f \<and> length f \<le> length (c # cs)" by blast
    with m show ?thesis by simp
  qed
qed

lemma regex_exec_bounds:
  "regex_exec s i = Some m \<Longrightarrow>
     i \<le> m_index m \<and> 0 < length (fullMatch m) \<and> m_index m + length (fullMatch m) \<le> length s"
proof -
  assume a: "regex_exec s i = Some m"
  then have le: "i \<le> length s" and b: "regex_search (drop i s) i = Some m"
    by (auto simp: regex_exec_def split: if_splits)
  from regex_search_bounds [OF b] le show ?thesis by simp
qed

text \<open>
  The successive results of \<open>varRegex.exec(s)\<close> in a \<open>while ((match = varRegex.exec(s)) !== null)\<close>
  loop that starts with \<open>lastIndex = i\<close>: after a match, \<open>lastIndex\<close> is the end of the match.
\<close>

function all_matches :: "string \<Rightarrow> nat \<Rightarrow> rmatch list" where
  "all_matches s i =
     (case regex_exec s i of
        None \<Rightarrow> []
      | Some m \<Rightarrow> m # all_matches s (m_index m + length (fullMatch m)))"
  by pat_completeness auto
termination
proof (relation "measure (\<lambda>(s, i). length s - i)")
  show "wf (measure (\<lambda>(s, i). length s - i))" by simp
next
  fix s i m
  assume "regex_exec s i = Some m"
  from regex_exec_bounds [OF this]
  have "i < m_index m + length (fullMatch m)" and "m_index m + length (fullMatch m) \<le> length s"
    by linarith+
  then show "((s, m_index m + length (fullMatch m)), (s, i)) \<in> measure (\<lambda>(s, i). length s - i)"
    by simp
qed

section \<open>Documents, the variable mapping and the state of a run\<close>

text \<open>
  A parsed style sheet (a PostCSS \<open>Root\<close>) is modelled by the list of its declarations in
  document order, whatever rule or at-rule they are nested in: this is the order in which
  \<open>walkDecls\<close> visits them. Parsing text into declarations and printing them back is PostCSS's
  work and is not part of the plugin.
\<close>

record decl =
  d_prop :: string
  d_value :: string

text \<open>
  A JavaScript \<open>Map\<close> from strings to strings, as an association list in insertion order:
  \<open>has\<close> and \<open>get\<close> are \<^const>\<open>map_of\<close>, \<open>set\<close> is \<^const>\<open>AList.update\<close> (a present key keeps
  its place and takes the new value, a new key goes to the end).
\<close>

type_synonym variable_map = "(string \<times> string) list"

text \<open>
  Everything one run reads and writes: the two module-level caches \<open>fileCache\<close> and
  \<open>variableCache\<close>, the locals \<open>variableMap\<close> and \<open>circularRefs\<close> of \<open>Once\<close> (captured by its
  closures), and the messages given to \<open>result.warn\<close>.
\<close>

record plugin_state =
  fileCache :: "(string \<times> decl list) list"
  variableCache :: "(string \<times> string) list"
  variableMap :: variable_map
  circularRefs :: "string set"
  warnings :: "string list"

definition warn :: "string \<Rightarrow> plugin_state \<Rightarrow> plugin_state" where
  "warn msg st = st\<lparr>warnings := warnings st @ [msg]\<rparr>"

section \<open>\<open>resolveVariable\<close>\<close>

text \<open>
  \<open>varName + Array.from(variableMap.entries()).join(",")\<close>: every entry \<open>[k, v]\<close> prints as
  \<open>k,v\<close>, and the entries are joined by commas.
\<close>

definition cacheKey :: "string \<Rightarrow> variable_map \<Rightarrow> string" where
  "cacheKey varName vm = varName @ join (map (\<lambda>(k, v). join [k, v] '','') vm) '',''"

lemma card_unvisited_less:
  assumes "map_of vm v = Some x" and "v \<notin> R"
  shows "card (fst ` set vm - insert v R) < card (fst ` set vm - R)"
proof -
  from assms(1) have "(v, x) \<in> set vm" by (rule map_of_SomeD)
  then have "v \<in> fst ` set vm" by force
  with assms(2) have v: "v \<in> fst ` set vm - R" by simp
  have "fst ` set vm - insert v R = (fst ` set vm - R) - {v}" by blast
  moreover have "finite (fst ` set vm - R)" by simp
  moreover have "card ((fst ` set vm - R) - {v}) < card (fst ` set vm - R)"
    using \<open>finite (fst ` set vm - R)\<close> v by (rule card_Diff1_less)
  ultimately show ?thesis by simp
qed

text \<open>
  \<open>resolveVariable(varName, variableMap, resolving, result)\<close>. The argument \<open>result\<close> of the
  model says whether a \<open>Result\<close> object was passed (\<open>False\<close> is the default \<open>null\<close>); the
  messages themselves go to the state. The callee adds \<open>varName\<close> to its set \<open>resolving\<close>
  before the loop and removes it after it, and hands a copy \<open>new Set(resolving)\<close> to every
  nested call, so the caller's set is the same before and after the call: the model passes
  the set by value. \<open>resolve_loop\<close> is the \<open>while\<close> loop over the matches of the raw value; its
  string argument is the local \<open>resolvedValue\<close>.
\<close>

function resolveVariable ::
    "string \<Rightarrow> variable_map \<Rightarrow> string set \<Rightarrow> bool \<Rightarrow> plugin_state \<Rightarrow>
       string option \<times> plugin_state"
  and resolve_loop ::
    "variable_map \<Rightarrow> string set \<Rightarrow> bool \<Rightarrow> rmatch list \<Rightarrow> string \<Rightarrow> plugin_state \<Rightarrow>
       string \<times> plugin_state"
where
  "resolveVariable varName vm resolving result st =
     (if varName \<in> resolving then
        (None,
         if result then warn (''Circular reference detected for variable '' @ varName) st
         else st)
      else
        (case map_of vm varName of
           None \<Rightarrow> (None, st)
         | Some val \<Rightarrow>
             (case map_of (variableCache st) (cacheKey varName vm) of
                Some cached \<Rightarrow> (Some cached, st)
              | None \<Rightarrow>
                  (let (resolvedValue, st') =
                         resolve_loop vm (insert varName resolving) result
                           (all_matches val 0) val st
                   in (Some resolvedValue,
                       st'\<lparr>variableCache :=
                             AList.update (cacheKey varName vm) resolvedValue
                               (variableCache st')\<rparr>)))))"
| "resolve_loop vm resolving result [] resolvedValue st = (resolvedValue, st)"
| "resolve_loop vm resolving result (m # ms) resolvedValue st =
     (let (nestedResolvedValue, st') =
            resolveVariable (trim (group1 m)) vm resolving result st
      in resolve_loop vm resolving result ms
           (case nestedResolvedValue of
              Some nested \<Rightarrow> replace resolvedValue (fullMatch m) nested
            | None \<Rightarrow>
                (case group2 m of
                   Some fallback \<Rightarrow>
                     if fallback \<noteq> [] then replace resolvedValue (fullMatch m) (trim fallback)
                     else resolvedValue
                 | None \<Rightarrow> resolvedValue))
           st')"
  by pat_completeness auto
termination
proof (relation "inv_image (less_than <*lex*> less_than)
     (\<lambda>x. case x of
        Inl (varName, vm, resolving, result, st) \<Rightarrow>
          (2 * card (fst ` set vm - resolving) + 1, 0)
      | Inr (vm, resolving, result, ms, rv, st) \<Rightarrow>
          (2 * card (fst ` set vm - resolving) + 2, length ms))", goal_cases)
  case 1
  show ?case by (intro wf_inv_image wf_lex_prod wf_less_than)
next
  case (2 varName resolving vm result st val)
  from card_unvisited_less [OF 2(2) 2(1)] show ?case by simp
next
  case 3
  show ?case by simp
next
  case 4
  show ?case by simp
qed

section \<open>\<open>detectCircular\<close>\<close>

text \<open>
  The closure \<open>detectCircular(varName, path)\<close> of \<open>Once\<close>. It reads the captured \<open>variableMap\<close>
  (the argument \<open>vm\<close>) and writes the captured \<open>circularRefs\<close> and \<open>result\<close> (the state).
  \<open>detect_loop\<close> is its \<open>while\<close> loop, which returns at the first reference whose walk reports
  a cycle; the set argument of the loop is \<open>newPath\<close>.
\<close>

function detectCircular ::
    "string \<Rightarrow> variable_map \<Rightarrow> string set \<Rightarrow> plugin_state \<Rightarrow> bool \<times> plugin_state"
  and detect_loop ::
    "string \<Rightarrow> variable_map \<Rightarrow> string set \<Rightarrow> rmatch list \<Rightarrow> plugin_state \<Rightarrow>
       bool \<times> plugin_state"
where
  "detectCircular varName vm path st =
     (if varName \<in> path then
        (True,
         warn (''Circular reference detected for variable '' @ varName)
           (st\<lparr>circularRefs := insert varName (circularRefs st)\<rparr>))
      else
        (case map_of vm varName of
           None \<Rightarrow> (False, st)
         | Some val \<Rightarrow> detect_loop varName vm (insert varName path) (all_matches val 0) st))"
| "detect_loop varName vm newPath [] st = (False, st)"
| "detect_loop varName vm newPath (m # ms) st =
     (let (found, st') = detectCircular (trim (group1 m)) vm newPath st
      in if found then (True, st'\<lparr>circularRefs := insert varName (circularRefs st')\<rparr>)
         else detect_loop varName vm newPath ms st')"
  by pat_completeness auto
termination
proof (relation "inv_image (less_than <*lex*> less_than)
     (\<lambda>x. case x of
        Inl (varName, vm, path, st) \<Rightarrow> (2 * card (fst ` set vm - path) + 1, 0)
      | Inr (varName, vm, newPath, ms, st) \<Rightarrow>
          (2 * card (fst ` set vm - newPath) + 2, length ms))", goal_cases)
  case 1
  show ?case by (intro wf_inv_image wf_lex_prod wf_less_than)
next
  case (2 varName path vm st val)
  from card_unvisited_less [OF 2(2) 2(1)] show ?case by simp
next
  case 3
  show ?case by simp
next
  case 4
  show ?case by simp
qed

text \<open>\<open>for (const [varName] of variableMap.entries()) detectCircular(varName)\<close>.\<close>

definition detect_all :: "plugin_state \<Rightarrow> plugin_state" where
  "detect_all st =
     fold (\<lambda>(varName, val) st. snd (detectCircular varName (variableMap st) {} st))
       (variableMap st) st"

section \<open>The rewriter: the callback of \<open>root.walkDecls\<close>\<close>

text \<open>\<open>if (resolvedValue)\<close>: \<open>null\<close> and the empty string are falsy, every other string is truthy.\<close>

definition truthy :: "string option \<Rightarrow> bool" where
  "truthy v = (case v of None \<Rightarrow> False | Some s \<Rightarrow> s \<noteq> [])"

text \<open>
  The \<open>while\<close> loop of the callback over the matches of \<open>decl.value\<close>, with its locals
  \<open>lastIndex\<close>, \<open>newValue\<close> and \<open>modified\<close>. The mapping and the cycle set are read from the
  state at every match, as the closure reads the captured variables.
\<close>

fun rewrite_loop ::
  "string \<Rightarrow> rmatch list \<Rightarrow> nat \<Rightarrow> string \<Rightarrow> bool \<Rightarrow> plugin_state \<Rightarrow>
     (nat \<times> string \<times> bool) \<times> plugin_state"
where
  "rewrite_loop val [] lastIndex newValue modified st = ((lastIndex, newValue, modified), st)"
| "rewrite_loop val (m # ms) lastIndex newValue modified st =
     (let trimmedVarName = trim (group1 m);
          newValue1 = newValue @ slice val lastIndex (m_index m);
          ((newValue2, modified2), st2) =
            (if trimmedVarName \<in> circularRefs st then ((newValue1 @ fullMatch m, modified), st)
             else
               let (resolvedValue, st') =
                     resolveVariable trimmedVarName (variableMap st) {} True st
               in if truthy resolvedValue then
                    ((newValue1 @ ''var('' @ trimmedVarName @ '', '' @ the resolvedValue @ '')'',
                      True), st')
                  else ((newValue1 @ fullMatch m, modified), st'))
      in rewrite_loop val ms (m_index m + length (fullMatch m)) newValue2 modified2 st2)"

text \<open>
  The whole callback: the loop, then the text after the last match, then the assignment to
  \<open>decl.value\<close> when \<open>modified\<close> is set.
\<close>

definition rewrite_decl :: "decl \<Rightarrow> plugin_state \<Rightarrow> decl \<times> plugin_state" where
  "rewrite_decl d st =
     (let val = d_value d;
          ((lastIndex, newValue, modified), st') =
            rewrite_loop val (all_matches val 0) 0 [] False st;
          newValue' = (if lastIndex < length val then newValue @ drop lastIndex val else newValue)
      in (if modified then d\<lparr>d_value := newValue'\<rparr> else d, st'))"

text \<open>\<open>root.walkDecls(callback)\<close> for a callback that may assign to the declaration it is given.\<close>

fun walkDecls ::
  "(decl \<Rightarrow> plugin_state \<Rightarrow> decl \<times> plugin_state) \<Rightarrow> decl list \<Rightarrow> plugin_state \<Rightarrow>
     decl list \<times> plugin_state" where
  "walkDecls f [] st = ([], st)"
| "walkDecls f (d # ds) st =
     (let (d', st') = f d st;
          (ds', st'') = walkDecls f ds st'
      in (d' # ds', st''))"

section \<open>Loading and merging the fallback files\<close>

definition extractVariables :: "decl list \<Rightarrow> variable_map" where
  "extractVariables root =
     fold (\<lambda>d variables.
             if startsWith (d_prop d) ''--'' then AList.update (d_prop d) (d_value d) variables
             else variables)
       root []"

text \<open>
  The file system and the parser are outside the plugin. \<open>resolvePath\<close> is
  \<open>path.resolve(dir, fallbackPath)\<close> for the directory of the document being processed, and
  \<open>readCss\<close> is \<open>fs.readFile\<close> followed by \<open>postcss.parse\<close>: \<open>Inl\<close> carries the message of the
  error thrown by either, \<open>Inr\<close> the parsed sheet.
\<close>

record env =
  resolvePath :: "string \<Rightarrow> string"
  readCss :: "string \<Rightarrow> string + decl list"

definition loadCssFile ::
  "env \<Rightarrow> string \<Rightarrow> plugin_state \<Rightarrow> (string + decl list) \<times> plugin_state" where
  "loadCssFile e filePath st =
     (case map_of (fileCache st) filePath of
        Some root \<Rightarrow> (Inr root, st)
      | None \<Rightarrow>
          (case readCss e filePath of
             Inl err \<Rightarrow> (Inl err, st)
           | Inr root \<Rightarrow>
               (Inr root, st\<lparr>fileCache := AList.update filePath root (fileCache st)\<rparr>)))"

text \<open>
  One round of the loop over \<open>fallbacks\<close>: the \<open>try\<close> block with its \<open>catch\<close>. A parsed sheet
  is an object and so always truthy; the \<open>else\<close> branch of \<open>if (fallbackRoot)\<close> is never taken.
\<close>

definition merge_fallback :: "env \<Rightarrow> string \<Rightarrow> plugin_state \<Rightarrow> plugin_state" where
  "merge_fallback e fallbackPath st =
     (let absolutePath = resolvePath e fallbackPath;
          (loaded, st') = loadCssFile e absolutePath st
      in case loaded of
           Inr fallbackRoot \<Rightarrow>
             st'\<lparr>variableMap :=
                   fold (\<lambda>(key, val) vm. AList.update key val vm)
                     (extractVariables fallbackRoot) (variableMap st')\<rparr>
         | Inl message \<Rightarrow>
             warn (''Error processing fallback file '' @ fallbackPath @ '': '' @ message) st')"

section \<open>\<open>Once\<close>\<close>

text \<open>
  The value of the option \<open>fallbacks\<close> as the caller gave it: missing, \<open>null\<close>, some value that
  is not an array (a string, a number, an object), or an array of paths.
\<close>

datatype js_fallbacks = Undefined | Null | NotArray | Array "string list"

text \<open>
  \<open>Once(root, {result})\<close> after \<open>const {fallbacks = []} = opts\<close>, which replaces only a missing
  option by the empty array. The first branch is the run proper: both caches are cleared, the
  mapping is built from the files in order, the cycle set is computed, and the declarations
  of the document are rewritten. What \<open>variableMap\<close> and \<open>circularRefs\<close> hold before the run is
  never read.
\<close>

definition Once ::
  "env \<Rightarrow> js_fallbacks \<Rightarrow> decl list \<Rightarrow> plugin_state \<Rightarrow> decl list \<times> plugin_state" where
  "Once e opt root st =
     (let fallbacks = (case opt of Undefined \<Rightarrow> Array [] | _ \<Rightarrow> opt)
      in case fallbacks of
           Array (p # ps) \<Rightarrow>
             (let st1 = st\<lparr>fileCache := [], variableCache := []\<rparr>;
                  st2 = fold (merge_fallback e) (p # ps) (st1\<lparr>variableMap := []\<rparr>);
                  st3 = detect_all (st2\<lparr>circularRefs := {}\<rparr>)
              in walkDecls rewrite_decl root st3)
         | _ \<Rightarrow> (root, warn ''Fallbacks must be an array of file paths'' st))"

text \<open>The state of a process that has not run the plugin yet, with no warning recorded.\<close>

definition initial_state :: plugin_state where
  "initial_state =
     \<lparr>fileCache = [], variableCache = [], variableMap = [], circularRefs = {}, warnings = []\<rparr>"

text \<open>A file system that holds the given parsed sheets under the given paths and nothing else.\<close>

definition files_env :: "(string \<times> decl list) list \<Rightarrow> env" where
  "files_env files =
     \<lparr>resolvePath = (\<lambda>p. p),
      readCss = (\<lambda>p. case map_of files p of
                        Some root \<Rightarrow> Inr root
                      | None \<Rightarrow> Inl (''ENOENT: no such file or directory, open '' @ p))\<rparr>"

section \<open>What each phase leaves untouched\<close>

declare resolveVariable.simps [simp del] detectCircular.simps [simp del] all_matches.simps [simp del]

lemma warn_fields [simp]:
  "fileCache (warn msg st) = fileCache st"
  "variableCache (warn msg st) = variableCache st"
  "variableMap (warn msg st) = variableMap st"
  "circularRefs (warn msg st) = circularRefs st"
  "warnings (warn msg st) = warnings st @ [msg]"
  by (simp_all add: warn_def)

lemma resolve_frame:
  "fileCache (snd (resolveVariable v vm R r st)) = fileCache st \<and>
   variableMap (snd (resolveVariable v vm R r st)) = variableMap st \<and>
   circularRefs (snd (resolveVariable v vm R r st)) = circularRefs st"
  "fileCache (snd (resolve_loop vm R r ms rv st)) = fileCache st \<and>
   variableMap (snd (resolve_loop vm R r ms rv st)) = variableMap st \<and>
   circularRefs (snd (resolve_loop vm R r ms rv st)) = circularRefs st"
proof (induction v vm R r st and vm R r ms rv st rule: resolveVariable_resolve_loop.induct)
  case (1 varName vm resolving result st)
  show ?case
  proof (cases "varName \<in> resolving")
    case True
    then show ?thesis by (simp add: resolveVariable.simps)
  next
    case nin: False
    show ?thesis
    proof (cases "map_of vm varName")
      case None
      with nin show ?thesis by (simp add: resolveVariable.simps)
    next
      case (Some val)
      show ?thesis
      proof (cases "map_of (variableCache st) (cacheKey varName vm)")
        case c: (Some cached)
        with nin Some show ?thesis by (simp add: resolveVariable.simps)
      next
        case c: None
        obtain rv st' where l: "resolve_loop vm (insert varName resolving) result
            (all_matches val 0) val st = (rv, st')"
          by (cases "resolve_loop vm (insert varName resolving) result (all_matches val 0) val st")
        from "1.IH" [OF nin Some c] l nin Some c show ?thesis
          by (simp add: resolveVariable.simps)
      qed
    qed
  qed
next
  case (2 vm resolving result resolvedValue st)
  show ?case by simp
next
  case (3 vm resolving result m ms resolvedValue st)
  obtain n st' where r: "resolveVariable (trim (group1 m)) vm resolving result st = (n, st')"
    by (cases "resolveVariable (trim (group1 m)) vm resolving result st")
  from "3.IH"(1) r have a: "fileCache st' = fileCache st \<and> variableMap st' = variableMap st \<and>
      circularRefs st' = circularRefs st" by simp
  from "3.IH"(2) [OF r [symmetric] refl] a r show ?case by simp
qed


lemma detect_frame:
  "fileCache (snd (detectCircular v vm P st)) = fileCache st \<and>
   variableMap (snd (detectCircular v vm P st)) = variableMap st \<and>
   variableCache (snd (detectCircular v vm P st)) = variableCache st"
  "fileCache (snd (detect_loop v vm P ms st)) = fileCache st \<and>
   variableMap (snd (detect_loop v vm P ms st)) = variableMap st \<and>
   variableCache (snd (detect_loop v vm P ms st)) = variableCache st"
proof (induction v vm P st and v vm P ms st rule: detectCircular_detect_loop.induct)
  case (1 varName vm path st)
  show ?case
  proof (cases "varName \<in> path")
    case True
    then show ?thesis by (simp add: detectCircular.simps)
  next
    case nin: False
    show ?thesis
    proof (cases "map_of vm varName")
      case None
      with nin show ?thesis by (simp add: detectCircular.simps)
    next
      case (Some val)
      from "1.IH" [OF nin Some] nin Some show ?thesis by (simp add: detectCircular.simps)
    qed
  qed
next
  case (2 varName vm newPath st)
  show ?case by simp
next
  case (3 varName vm newPath m ms st)
  obtain found st' where r: "detectCircular (trim (group1 m)) vm newPath st = (found, st')"
    by (cases "detectCircular (trim (group1 m)) vm newPath st")
  from "3.IH"(1) r have a: "fileCache st' = fileCache st \<and> variableMap st' = variableMap st \<and>
      variableCache st' = variableCache st" by simp
  show ?case
  proof (cases found)
    case True
    with a r show ?thesis by simp
  next
    case False
    from "3.IH"(2) [OF r [symmetric] refl False] a r False show ?thesis by simp
  qed
qed

lemma detect_fold_variableMap:
  "variableMap (fold (\<lambda>(varName, val) st. snd (detectCircular varName (variableMap st) {} st)) xs st)
     = variableMap st"
proof (induction xs arbitrary: st)
  case Nil
  show ?case by simp
next
  case (Cons x xs)
  obtain k v where x: "x = (k, v)" by (cases x)
  show ?case using Cons.IH detect_frame(1) [of k "variableMap st" "{}" st] by (simp add: x)
qed

lemma detect_all_variableMap: "variableMap (detect_all st) = variableMap st"
  unfolding detect_all_def by (rule detect_fold_variableMap)

lemma rewrite_loop_circular:
  "trim (group1 m) \<in> circularRefs st \<Longrightarrow>
   rewrite_loop val (m # ms) li nv md st =
   rewrite_loop val ms (m_index m + length (fullMatch m))
     (nv @ slice val li (m_index m) @ fullMatch m) md st"
  by (simp add: Let_def)

lemma rewrite_loop_resolved:
  "trim (group1 m) \<notin> circularRefs st \<Longrightarrow>
   resolveVariable (trim (group1 m)) (variableMap st) {} True st = (Some S, st') \<Longrightarrow>
   S \<noteq> [] \<Longrightarrow>
   rewrite_loop val (m # ms) li nv md st =
   rewrite_loop val ms (m_index m + length (fullMatch m))
     (nv @ slice val li (m_index m) @ ''var('' @ trim (group1 m) @ '', '' @ S @ '')'') True st'"
  by (simp add: Let_def truthy_def)

lemma rewrite_loop_unresolved:
  "trim (group1 m) \<notin> circularRefs st \<Longrightarrow>
   resolveVariable (trim (group1 m)) (variableMap st) {} True st = (r, st') \<Longrightarrow>
   \<not> truthy r \<Longrightarrow>
   rewrite_loop val (m # ms) li nv md st =
   rewrite_loop val ms (m_index m + length (fullMatch m))
     (nv @ slice val li (m_index m) @ fullMatch m) md st'"
  by (simp add: Let_def)


lemma rewrite_loop_frame:
  "fileCache (snd (rewrite_loop val ms li nv md st)) = fileCache st \<and>
   variableMap (snd (rewrite_loop val ms li nv md st)) = variableMap st \<and>
   circularRefs (snd (rewrite_loop val ms li nv md st)) = circularRefs st"
proof (induction ms arbitrary: li nv md st)
  case Nil
  show ?case by simp
next
  case (Cons m ms)
  show ?case
  proof (cases "trim (group1 m) \<in> circularRefs st")
    case True
    show ?thesis unfolding rewrite_loop_circular [OF True] by (rule Cons.IH)
  next
    case False
    obtain r st' where rs:
      "resolveVariable (trim (group1 m)) (variableMap st) {} True st = (r, st')"
      by (cases "resolveVariable (trim (group1 m)) (variableMap st) {} True st")
    from resolve_frame(1) [of "trim (group1 m)" "variableMap st" "{}" True st] rs
    have fr: "fileCache st' = fileCache st" "variableMap st' = variableMap st"
      "circularRefs st' = circularRefs st" by simp_all
    show ?thesis
    proof (cases "truthy r")
      case True
      then obtain S where S: "r = Some S" "S \<noteq> []"
        by (cases r) (simp_all add: truthy_def)
      show ?thesis unfolding rewrite_loop_resolved [OF False rs [unfolded S(1)] S(2)]
        using Cons.IH [of _ _ _ st'] fr by simp
    next
      case nt: False
      show ?thesis unfolding rewrite_loop_unresolved [OF False rs nt]
        using Cons.IH [of _ _ _ st'] fr by simp
    qed
  qed
qed

lemma rewrite_decl_frame:
  "fileCache (snd (rewrite_decl d st)) = fileCache st \<and>
   variableMap (snd (rewrite_decl d st)) = variableMap st \<and>
   circularRefs (snd (rewrite_decl d st)) = circularRefs st"
proof -
  obtain li nv md st' where l:
    "rewrite_loop (d_value d) (all_matches (d_value d) 0) 0 [] False st = ((li, nv, md), st')"
    by (cases "rewrite_loop (d_value d) (all_matches (d_value d) 0) 0 [] False st") auto
  from rewrite_loop_frame [of "d_value d" "all_matches (d_value d) 0" 0 "[]" False st] l
  show ?thesis by (simp add: rewrite_decl_def Let_def)
qed

lemma walkDecls_frame:
  "fileCache (snd (walkDecls rewrite_decl ds st)) = fileCache st \<and>
   variableMap (snd (walkDecls rewrite_decl ds st)) = variableMap st \<and>
   circularRefs (snd (walkDecls rewrite_decl ds st)) = circularRefs st"
proof (induction ds arbitrary: st)
  case Nil
  show ?case by simp
next
  case (Cons d ds)
  obtain d' st' where r: "rewrite_decl d st = (d', st')" by (cases "rewrite_decl d st")
  obtain ds' st'' where w: "walkDecls rewrite_decl ds st' = (ds', st'')"
    by (cases "walkDecls rewrite_decl ds st'")
  from rewrite_decl_frame [of d st] r Cons.IH [of st'] w show ?case by simp
qed

section \<open>One occurrence at a time\<close>





lemma match_here_fallback:
  assumes n: "n \<noteq> []" "\<forall>c\<in>set n. c \<noteq> CHR '','' \<and> c \<noteq> CHR '')''"
    and f: "fb \<noteq> []" "\<forall>c\<in>set fb. c \<noteq> CHR '')''"
  shows "match_here (''var('' @ n @ '','' @ fb @ '')'' @ rest) =
         Some (''var('' @ n @ '','' @ fb @ '')'', n, Some fb)"
proof -
  let ?p1 = "\<lambda>c. c \<noteq> CHR '','' \<and> c \<noteq> CHR '')''"
  let ?p2 = "\<lambda>c. c \<noteq> CHR '')''"
  let ?r = "n @ CHR '','' # fb @ CHR '')'' # rest"
  have sw: "startsWith (''var('' @ n @ '','' @ fb @ '')'' @ rest) ''var(''"
    by (simp add: startsWith_def)
  have d4: "drop 4 (''var('' @ n @ '','' @ fb @ '')'' @ rest) = ?r" by simp
  have tn: "takeWhile ?p1 n = n" using n(2) by (simp add: takeWhile_eq_all_conv)
  have t1: "takeWhile ?p1 ?r = n"
    using takeWhile_tail [of ?p1 "CHR '',''" n "fb @ CHR '')'' # rest"] tn by simp
  have dn: "dropWhile ?p1 n = []" using n(2) by simp
  have d1: "dropWhile ?p1 ?r = CHR '','' # fb @ CHR '')'' # rest"
    using dropWhile_append3 [of ?p1 "CHR '',''" n "fb @ CHR '')'' # rest"] dn by simp
  have tf: "takeWhile ?p2 fb = fb" using f(2) by (simp add: takeWhile_eq_all_conv)
  have t2: "takeWhile ?p2 (fb @ CHR '')'' # rest) = fb"
    using takeWhile_tail [of ?p2 "CHR '')''" fb rest] tf by simp
  have df: "dropWhile ?p2 fb = []" using f(2) by simp
  have d2: "dropWhile ?p2 (fb @ CHR '')'' # rest) = CHR '')'' # rest"
    using dropWhile_append3 [of ?p2 "CHR '')''" fb rest] df by simp
  show ?thesis
    unfolding match_here_def Let_def d4 t1 d1
    using sw n(1) f(1) t2 d2 by simp
qed


section \<open>The matcher against the pattern\<close>

text \<open>
  What the pattern accepts at the head of a text, read off the pattern itself: the matched
  text \<open>f\<close> is a prefix of the text and consists of \<open>var(\<close>, a non-empty first group \<open>n\<close> free of
  \<open>,\<close> and \<open>)\<close>, then either nothing or a comma and a non-empty second group free of \<open>)\<close>, and
  a closing \<open>)\<close>.
\<close>

definition pattern_match :: "string \<Rightarrow> string \<times> string \<times> string option \<Rightarrow> bool" where
  "pattern_match s t =
     (case t of (f, n, fb) \<Rightarrow>
        (\<exists>rest. s = f @ rest) \<and> n \<noteq> [] \<and> (\<forall>c\<in>set n. c \<noteq> CHR '','' \<and> c \<noteq> CHR '')'') \<and>
        (case fb of
           None \<Rightarrow> f = ''var('' @ n @ '')''
         | Some g \<Rightarrow> g \<noteq> [] \<and> (\<forall>c\<in>set g. c \<noteq> CHR '')'') \<and> f = ''var('' @ n @ '','' @ g @ '')''))"

lemma match_here_plain:
  assumes n: "n \<noteq> []" "\<forall>c\<in>set n. c \<noteq> CHR '','' \<and> c \<noteq> CHR '')''"
  shows "match_here (''var('' @ n @ '')'' @ rest) = Some (''var('' @ n @ '')'', n, None)"
proof -
  let ?p1 = "\<lambda>c. c \<noteq> CHR '','' \<and> c \<noteq> CHR '')''"
  let ?r = "n @ CHR '')'' # rest"
  have sw: "startsWith (''var('' @ n @ '')'' @ rest) ''var(''"
    by (simp add: startsWith_def)
  have d4: "drop 4 (''var('' @ n @ '')'' @ rest) = ?r" by simp
  have tn: "takeWhile ?p1 n = n" using n(2) by (simp add: takeWhile_eq_all_conv)
  have t1: "takeWhile ?p1 ?r = n"
    using takeWhile_tail [of ?p1 "CHR '')''" n rest] tn by simp
  have dn: "dropWhile ?p1 n = []" using n(2) by simp
  have d1: "dropWhile ?p1 ?r = CHR '')'' # rest"
    using dropWhile_append3 [of ?p1 "CHR '')''" n rest] dn by simp
  show ?thesis
    unfolding match_here_def Let_def d4 t1 d1
    using sw n(1) by simp
qed

text \<open>
  \<open>match_here\<close> returns a triple exactly when the pattern accepts it. A function has one
  result, so at every position there is at most one way to match, and the order in which a
  backtracking matcher tries the alternatives makes no difference.
\<close>

lemma match_here_iff: "(match_here s = Some t) = pattern_match s t"
proof
  assume a: "match_here s = Some t"
  obtain f n fb where t: "t = (f, n, fb)" by (cases t)
  from match_here_cases [OF a [unfolded t]] have n: "n \<noteq> []"
    and ns: "\<forall>c\<in>set n. c \<noteq> CHR '','' \<and> c \<noteq> CHR '')''"
    and alt: "(\<exists>rest. fb = None \<and> f = ''var('' @ n @ '')'' \<and> s = f @ rest) \<or>
      (\<exists>g rest. fb = Some g \<and> g \<noteq> [] \<and> (\<forall>c\<in>set g. c \<noteq> CHR '')'') \<and>
           f = ''var('' @ n @ '','' @ g @ '')'' \<and> s = f @ rest)"
    by (rule conjunct1, rule conjunct1 [OF conjunct2], rule conjunct2 [OF conjunct2])
  from alt show "pattern_match s t"
  proof (elim disjE exE conjE)
    fix rest assume fb: "fb = None" and f: "f = ''var('' @ n @ '')''" and s: "s = f @ rest"
    from s have e: "\<exists>rest. s = f @ rest" by (rule exI)
    show ?thesis unfolding pattern_match_def t fb
      by (simp only: prod.case option.case) (intro conjI e n ns f)
  next
    fix g rest assume fb: "fb = Some g" and g: "g \<noteq> []"
      and gs: "\<forall>c\<in>set g. c \<noteq> CHR '')''"
      and f: "f = ''var('' @ n @ '','' @ g @ '')''" and s: "s = f @ rest"
    from s have e: "\<exists>rest. s = f @ rest" by (rule exI)
    show ?thesis unfolding pattern_match_def t fb
      by (simp only: prod.case option.case) (intro conjI e n ns g gs f)
  qed
next
  assume a: "pattern_match s t"
  obtain f n fb where t: "t = (f, n, fb)" by (cases t)
  from a [unfolded pattern_match_def t prod.case] have b: "(\<exists>rest. s = f @ rest) \<and> n \<noteq> [] \<and>
      (\<forall>c\<in>set n. c \<noteq> CHR '','' \<and> c \<noteq> CHR '')'') \<and>
      (case fb of
         None \<Rightarrow> f = ''var('' @ n @ '')''
       | Some g \<Rightarrow> g \<noteq> [] \<and> (\<forall>c\<in>set g. c \<noteq> CHR '')'') \<and> f = ''var('' @ n @ '','' @ g @ '')'')"
    .
  then obtain rest where s: "s = f @ rest" by (elim conjE exE)
  have n: "n \<noteq> []" "\<forall>c\<in>set n. c \<noteq> CHR '','' \<and> c \<noteq> CHR '')''"
    by (rule conjunct1 [OF conjunct2 [OF b]], rule conjunct1 [OF conjunct2 [OF conjunct2 [OF b]]])
  have c: "case fb of
         None \<Rightarrow> f = ''var('' @ n @ '')''
       | Some g \<Rightarrow> g \<noteq> [] \<and> (\<forall>c\<in>set g. c \<noteq> CHR '')'') \<and> f = ''var('' @ n @ '','' @ g @ '')''"
    by (rule conjunct2 [OF conjunct2 [OF conjunct2 [OF b]]])
  show "match_here s = Some t"
  proof (cases fb)
    case None
    from c [unfolded None option.case] have f: "f = ''var('' @ n @ '')''" .
    show ?thesis unfolding s t f None using match_here_plain [OF n, of rest] by simp
  next
    case (Some g)
    from c [unfolded Some option.case]
    have d: "g \<noteq> [] \<and> (\<forall>c\<in>set g. c \<noteq> CHR '')'') \<and> f = ''var('' @ n @ '','' @ g @ '')''" .
    have g: "g \<noteq> []" "\<forall>c\<in>set g. c \<noteq> CHR '')''" and f: "f = ''var('' @ n @ '','' @ g @ '')''"
      by (rule conjunct1 [OF d], rule conjunct1 [OF conjunct2 [OF d]], rule conjunct2 [OF conjunct2 [OF d]])
    show ?thesis unfolding s t f Some using match_here_fallback [OF n g, of rest] by simp
  qed
qed

section \<open>The repository's tests, run on the model\<close>

text \<open>
  The cases of \<open>index.test.js\<close> that do not depend on the text of a style sheet, with every
  sheet given as its declarations. Each expected output of the test suite is the output of
  the model.
\<close>

lemma test_nested_variable_references:
  "fst (Once (files_env
            [(''base-vars.css'',
                [\<lparr>d_prop = ''--size'', d_value = ''16px''\<rparr>,
                 \<lparr>d_prop = ''--base-padding'', d_value = ''var(--size)''\<rparr>]),
             (''theme.css'', [\<lparr>d_prop = ''--padding'', d_value = ''var(--base-padding)''\<rparr>])])
          (Array [''base-vars.css'', ''theme.css''])
          [\<lparr>d_prop = ''padding'', d_value = ''var(--padding)''\<rparr>] initial_state)
     = [\<lparr>d_prop = ''padding'', d_value = ''var(--padding, 16px)''\<rparr>]"
  by code_simp

lemma test_unknown_variables_unchanged:
  "fst (Once (files_env [(''base-vars.css'', [\<lparr>d_prop = ''--known'', d_value = ''blue''\<rparr>])])
          (Array [''base-vars.css''])
          [\<lparr>d_prop = ''color'', d_value = ''var(--unknown)''\<rparr>,
           \<lparr>d_prop = ''background'', d_value = ''var(--known)''\<rparr>] initial_state)
     = [\<lparr>d_prop = ''color'', d_value = ''var(--unknown)''\<rparr>,
        \<lparr>d_prop = ''background'', d_value = ''var(--known, blue)''\<rparr>]"
  by code_simp

lemma test_complex_values:
  "fst (Once (files_env
            [(''base-vars.css'', [\<lparr>d_prop = ''--transform'', d_value = ''rotate(45deg) scale(1.5)''\<rparr>])])
          (Array [''base-vars.css''])
          [\<lparr>d_prop = ''transform'', d_value = ''var(--transform)''\<rparr>] initial_state)
     = [\<lparr>d_prop = ''transform'', d_value = ''var(--transform, rotate(45deg) scale(1.5))''\<rparr>]"
  by code_simp

lemma test_variables_in_non_root_blocks:
  "fst (Once (files_env
            [(''theme.css'',
                [\<lparr>d_prop = ''--bg-color'', d_value = ''#222''\<rparr>,
                 \<lparr>d_prop = ''--bg-color'', d_value = ''#fff''\<rparr>])])
          (Array [''theme.css''])
          [\<lparr>d_prop = ''background'', d_value = ''var(--bg-color)''\<rparr>] initial_state)
     = [\<lparr>d_prop = ''background'', d_value = ''var(--bg-color, #fff)''\<rparr>]"
  by code_simp

lemma test_file_order_precedence:
  "fst (Once (files_env
            [(''base.css'', [\<lparr>d_prop = ''--color'', d_value = ''blue''\<rparr>]),
             (''theme.css'', [\<lparr>d_prop = ''--color'', d_value = ''red''\<rparr>])])
          (Array [''base.css'', ''theme.css''])
          [\<lparr>d_prop = ''color'', d_value = ''var(--color)''\<rparr>] initial_state)
     = [\<lparr>d_prop = ''color'', d_value = ''var(--color, red)''\<rparr>]"
  by code_simp

lemma test_multiple_references_in_one_declaration:
  "fst (Once (files_env
            [(''spacing.css'',
                [\<lparr>d_prop = ''--gap'', d_value = ''8px''\<rparr>,
                 \<lparr>d_prop = ''--padding'', d_value = ''16px''\<rparr>])])
          (Array [''spacing.css''])
          [\<lparr>d_prop = ''margin'', d_value = ''var(--gap) var(--padding)''\<rparr>] initial_state)
     = [\<lparr>d_prop = ''margin'', d_value = ''var(--gap, 8px) var(--padding, 16px)''\<rparr>]"
  by code_simp

lemma test_missing_fallback_file:
  "Once (files_env []) (Array [''non-existent.css''])
      [\<lparr>d_prop = ''color'', d_value = ''var(--color)''\<rparr>] initial_state
     = ([\<lparr>d_prop = ''color'', d_value = ''var(--color)''\<rparr>],
        initial_state\<lparr>warnings :=
          [''Error processing fallback file non-existent.css: '' @
           ''ENOENT: no such file or directory, open non-existent.css'']\<rparr>)"
  by code_simp

lemma test_circular_references:
  "fst (Once (files_env
            [(''circular.css'',
                [\<lparr>d_prop = ''--a'', d_value = ''var(--b)''\<rparr>,
                 \<lparr>d_prop = ''--b'', d_value = ''var(--a)''\<rparr>])])
          (Array [''circular.css''])
          [\<lparr>d_prop = ''color'', d_value = ''var(--a)''\<rparr>] initial_state)
     = [\<lparr>d_prop = ''color'', d_value = ''var(--a)''\<rparr>]"
  by code_simp

lemma test_deeply_nested_variables:
  "fst (Once (files_env
            [(''deep.css'',
                [\<lparr>d_prop = ''--level1'', d_value = ''10px''\<rparr>,
                 \<lparr>d_prop = ''--level2'', d_value = ''var(--level1)''\<rparr>,
                 \<lparr>d_prop = ''--level3'', d_value = ''var(--level2)''\<rparr>,
                 \<lparr>d_prop = ''--level4'', d_value = ''var(--level3)''\<rparr>,
                 \<lparr>d_prop = ''--level5'', d_value = ''var(--level4)''\<rparr>])])
          (Array [''deep.css''])
          [\<lparr>d_prop = ''margin'', d_value = ''var(--level5)''\<rparr>] initial_state)
     = [\<lparr>d_prop = ''margin'', d_value = ''var(--level5, 10px)''\<rparr>]"
  by code_simp

lemma test_calc_expressions:
  "fst (Once (files_env
            [(''calc.css'',
                [\<lparr>d_prop = ''--base'', d_value = ''16px''\<rparr>,
                 \<lparr>d_prop = ''--spacing'', d_value = ''calc(var(--base) * 1.5)''\<rparr>])])
          (Array [''calc.css''])
          [\<lparr>d_prop = ''padding'', d_value = ''var(--spacing)''\<rparr>,
           \<lparr>d_prop = ''margin'', d_value = ''var(--spacing)''\<rparr>] initial_state)
     = [\<lparr>d_prop = ''padding'', d_value = ''var(--spacing, calc(16px * 1.5))''\<rparr>,
        \<lparr>d_prop = ''margin'', d_value = ''var(--spacing, calc(16px * 1.5))''\<rparr>]"
  by code_simp

lemma test_complex_css_functions:
  "fst (Once (files_env
            [(''complex.css'',
                [\<lparr>d_prop = ''--color'', d_value = ''rgba(255, 0, 0, 0.5)''\<rparr>,
                 \<lparr>d_prop = ''--shadow'', d_value = ''0 2px 4px var(--color)''\<rparr>])])
          (Array [''complex.css''])
          [\<lparr>d_prop = ''box-shadow'', d_value = ''var(--shadow)''\<rparr>] initial_state)
     = [\<lparr>d_prop = ''box-shadow'', d_value = ''var(--shadow, 0 2px 4px rgba(255, 0, 0, 0.5))''\<rparr>]"
  by code_simp

section \<open>The new value of a declaration, piece by piece\<close>


text \<open>
  What one round of the loop appends for the match \<open>m\<close> when it is reached in state \<open>st\<close>: the
  matched text for a name of the cycle set or a falsy result of the resolver, and
  \<open>var(<name>, <resolved>)\<close> otherwise.
\<close>

definition piece :: "rmatch \<Rightarrow> plugin_state \<Rightarrow> string" where
  "piece m st =
     (let trimmedVarName = trim (group1 m)
      in if trimmedVarName \<in> circularRefs st then fullMatch m
         else
           let resolvedValue = fst (resolveVariable trimmedVarName (variableMap st) {} True st)
           in if truthy resolvedValue then
                ''var('' @ trimmedVarName @ '', '' @ the resolvedValue @ '')''
              else fullMatch m)"


text \<open>The state after that round: the resolver, when it is called, may add to the cache and warn.\<close>

definition after_match :: "rmatch \<Rightarrow> plugin_state \<Rightarrow> plugin_state" where
  "after_match m st =
     (if trim (group1 m) \<in> circularRefs st then st
      else snd (resolveVariable (trim (group1 m)) (variableMap st) {} True st))"

text \<open>The states in which the loop reaches the matches of a list, and the pieces it appends for them.\<close>

fun loop_states :: "rmatch list \<Rightarrow> plugin_state \<Rightarrow> plugin_state list" where
  "loop_states [] st = []"
| "loop_states (m # ms) st = st # loop_states ms (after_match m st)"

fun pieces :: "rmatch list \<Rightarrow> plugin_state \<Rightarrow> string list" where
  "pieces [] st = []"
| "pieces (m # ms) st = piece m st # pieces ms (after_match m st)"


lemma length_pieces [simp]: "length (pieces ms st) = length ms"
  by (induction ms arbitrary: st) simp_all

lemma length_loop_states [simp]: "length (loop_states ms st) = length ms"
  by (induction ms arbitrary: st) simp_all






















section \<open>The end-to-end example\<close>

text \<open>
  Claim C1. With the single source \<open>:root{--size:16px;--pad:var(--size);}\<close> and the target
  \<open>.b{padding:var(--pad);}\<close>, both given as their declarations, the run rewrites the one
  declaration of the target to \<open>padding: var(--pad, 16px)\<close>: \<open>--pad\<close> is resolved through
  \<open>--size\<close>, and the fallback is inserted after a comma and a space. No warning is emitted.
\<close>

theorem end_to_end_example:
  "fst (Once (files_env [(''vars.css'',
                  [\<lparr>d_prop = ''--size'', d_value = ''16px''\<rparr>,
                   \<lparr>d_prop = ''--pad'', d_value = ''var(--size)''\<rparr>])])
          (Array [''vars.css''])
          [\<lparr>d_prop = ''padding'', d_value = ''var(--pad)''\<rparr>]
          initial_state)
     = [\<lparr>d_prop = ''padding'', d_value = ''var(--pad, 16px)''\<rparr>]
   \<and> warnings (snd (Once (files_env [(''vars.css'',
                  [\<lparr>d_prop = ''--size'', d_value = ''16px''\<rparr>,
                   \<lparr>d_prop = ''--pad'', d_value = ''var(--size)''\<rparr>])])
          (Array [''vars.css''])
          [\<lparr>d_prop = ''padding'', d_value = ''var(--pad)''\<rparr>]
          initial_state)) = []"
  by code_simp

section \<open>Cyclic names\<close>

text \<open>
  Claim C2, as amended. \<open>resolveVariable\<close> never looks at the cycle set. It returns \<open>null\<close>,
  with the warning \<open>Circular reference detected for variable ...\<close>, for a name that is already
  in its set \<open>resolving\<close>, that is, on its own resolution path. For a name of the cycle set it
  is the rewriter that does not call the resolver at all and copies the matched text.
\<close>

theorem cyclic_names_in_resolver_and_rewriter:
  "(v \<in> resolving \<longrightarrow>
      resolveVariable v vm resolving True st =
        (None, st\<lparr>warnings := warnings st @ [''Circular reference detected for variable '' @ v]\<rparr>))
   \<and> (trim (group1 m) \<in> circularRefs st \<longrightarrow>
      rewrite_loop val (m # ms) lastIndex newValue modified st =
        rewrite_loop val ms (m_index m + length (fullMatch m))
          (newValue @ slice val lastIndex (m_index m) @ fullMatch m) modified st)"
proof (intro conjI impI)
  assume "v \<in> resolving"
  then show "resolveVariable v vm resolving True st =
        (None, st\<lparr>warnings := warnings st @ [''Circular reference detected for variable '' @ v]\<rparr>)"
    by (simp add: resolveVariable.simps warn_def)
next
  assume "trim (group1 m) \<in> circularRefs st"
  then show "rewrite_loop val (m # ms) lastIndex newValue modified st =
        rewrite_loop val ms (m_index m + length (fullMatch m))
          (newValue @ slice val lastIndex (m_index m) @ fullMatch m) modified st"
    by (rule rewrite_loop_circular)
qed

text \<open>The two parts of the theorem at the mapping \<open>--a: var(--b); --b: var(--a)\<close>.\<close>

theorem cyclic_names_in_resolver_and_rewriter_witness:
  "resolveVariable ''--a'' [(''--a'', ''var(--b)''), (''--b'', ''var(--a)'')] {''--a'', ''--b''} True
      initial_state
     = (None, initial_state\<lparr>warnings := [''Circular reference detected for variable --a'']\<rparr>)
   \<and> fst (rewrite_loop ''var(--a)''
          [\<lparr>m_index = 0, fullMatch = ''var(--a)'', group1 = ''--a'', group2 = None\<rparr>] 0 [] False
          (initial_state\<lparr>variableMap := [(''--a'', ''var(--b)''), (''--b'', ''var(--a)'')],
                         circularRefs := {''--a'', ''--b''}\<rparr>))
       = (8, ''var(--a)'', False)"
proof -
  let ?vm = "[(''--a'', ''var(--b)''), (''--b'', ''var(--a)'')]"
  let ?st = "initial_state\<lparr>variableMap := ?vm, circularRefs := {''--a'', ''--b''}\<rparr>"
  let ?m = "\<lparr>m_index = 0, fullMatch = ''var(--a)'', group1 = ''--a'', group2 = None\<rparr>"
  have h1: "''--a'' \<in> {''--a'', ''--b''}" by simp
  have h2: "trim (group1 ?m) \<in> circularRefs ?st" by code_simp
  have a: "resolveVariable ''--a'' ?vm {''--a'', ''--b''} True initial_state =
      (None, initial_state\<lparr>warnings := warnings initial_state @
          [''Circular reference detected for variable '' @ ''--a'']\<rparr>)"
    by (rule mp [OF conjunct1 [OF cyclic_names_in_resolver_and_rewriter] h1])
  have b: "rewrite_loop ''var(--a)'' [?m] 0 [] False ?st =
      rewrite_loop ''var(--a)'' [] (m_index ?m + length (fullMatch ?m))
          ([] @ slice ''var(--a)'' 0 (m_index ?m) @ fullMatch ?m) False ?st"
    by (rule mp [OF conjunct2 [OF cyclic_names_in_resolver_and_rewriter] h2])
  from a have a': "resolveVariable ''--a'' ?vm {''--a'', ''--b''} True initial_state
     = (None, initial_state\<lparr>warnings := [''Circular reference detected for variable --a'']\<rparr>)"
    by (simp add: initial_state_def)
  from b have b': "fst (rewrite_loop ''var(--a)'' [?m] 0 [] False ?st) = (8, ''var(--a)'', False)"
    by (simp add: slice_def)
  from a' b' show ?thesis by (rule conjI)
qed

text \<open>
  The claim as written fails at the mapping \<open>--a: var(--b); --b: var(--a)\<close>: the detector
  puts \<open>--a\<close> into the cycle set, and the resolver, called on \<open>--a\<close> with an empty path,
  returns the string \<open>var(--a)\<close>. The nested call for \<open>--b\<close> leaves the reference to \<open>--a\<close> in
  place, since \<open>--a\<close> is on the path and the reference has no fallback; the call for \<open>--a\<close>
  then replaces \<open>var(--b)\<close> by that text.
\<close>

theorem resolver_returns_string_for_cyclic_counterexample:
  "''--a'' \<in> circularRefs (detect_all
        (initial_state\<lparr>variableMap := [(''--a'', ''var(--b)''), (''--b'', ''var(--a)'')]\<rparr>))
   \<and> fst (resolveVariable ''--a'' [(''--a'', ''var(--b)''), (''--b'', ''var(--a)'')] {} True
          (detect_all (initial_state\<lparr>variableMap := [(''--a'', ''var(--b)''), (''--b'', ''var(--a)'')]\<rparr>)))
       = Some ''var(--a)''"
  by code_simp

section \<open>Which names the detector marks\<close>

text \<open>
  The reference graph of a mapping: there is an edge from \<open>a\<close> to \<open>b\<close> when \<open>a\<close> has an entry
  and the pattern, run over the raw value of \<open>a\<close>, has a match whose trimmed first group is
  \<open>b\<close>. These are the references \<open>detectCircular\<close> follows. The graph is not built by the
  code; it is defined here to say which names end up in \<open>circularRefs\<close>.
\<close>

definition refs :: "variable_map \<Rightarrow> (string \<times> string) set" where
  "refs vm = {(a, b). \<exists>val m. map_of vm a = Some val \<and> m \<in> set (all_matches val 0) \<and>
                              b = trim (group1 m)}"

text \<open>A name reaches a cycle when some name on a cycle of the graph can be reached from it.\<close>

definition reaches_cycle :: "variable_map \<Rightarrow> string \<Rightarrow> bool" where
  "reaches_cycle vm k = (\<exists>w. (k, w) \<in> (refs vm)\<^sup>* \<and> (w, w) \<in> (refs vm)\<^sup>+)"

text \<open>
  From \<open>v\<close> one can reach a name that is on the path \<open>P\<close> or on a cycle. This is what a walk
  started at \<open>v\<close> with path \<open>P\<close> reports.
\<close>

definition revisits :: "variable_map \<Rightarrow> string set \<Rightarrow> string \<Rightarrow> bool" where
  "revisits vm P v = (\<exists>w. (v, w) \<in> (refs vm)\<^sup>* \<and> (w \<in> P \<or> (w, w) \<in> (refs vm)\<^sup>+))"

lemma refs_iff:
  "map_of vm a = Some val \<Longrightarrow>
   ((a, b) \<in> refs vm) = (\<exists>m\<in>set (all_matches val 0). b = trim (group1 m))"
  by (auto simp: refs_def)

lemma refs_unmapped: "map_of vm a = None \<Longrightarrow> (a, b) \<notin> refs vm"
  by (simp add: refs_def)

lemma revisits_on_path: "v \<in> P \<Longrightarrow> revisits vm P v"
  unfolding revisits_def by blast

lemma revisits_unmapped:
  assumes "map_of vm v = None" and "v \<notin> P"
  shows "\<not> revisits vm P v"
proof
  assume "revisits vm P v"
  then obtain w where w: "(v, w) \<in> (refs vm)\<^sup>*" "w \<in> P \<or> (w, w) \<in> (refs vm)\<^sup>+"
    unfolding revisits_def by blast
  from w(1) have "w = v"
    by (rule converse_rtranclE) (simp_all add: refs_unmapped [OF assms(1)])
  with w(2) assms(2) have "(v, v) \<in> (refs vm)\<^sup>+" by simp
  then obtain u where "(v, u) \<in> refs vm" by (meson tranclD)
  with refs_unmapped [OF assms(1)] show False by blast
qed

lemma revisits_step:
  assumes "v \<notin> P"
  shows "revisits vm P v = (\<exists>u. (v, u) \<in> refs vm \<and> revisits vm (insert v P) u)"
proof
  assume "revisits vm P v"
  then obtain w where w: "(v, w) \<in> (refs vm)\<^sup>*" "w \<in> P \<or> (w, w) \<in> (refs vm)\<^sup>+"
    unfolding revisits_def by blast
  from w(1) show "\<exists>u. (v, u) \<in> refs vm \<and> revisits vm (insert v P) u"
  proof (rule converse_rtranclE)
    assume "v = w"
    with w(2) assms have "(v, v) \<in> (refs vm)\<^sup>+" by simp
    then obtain u where u: "(v, u) \<in> refs vm" "(u, v) \<in> (refs vm)\<^sup>*" by (meson tranclD)
    from u(2) have "revisits vm (insert v P) u" unfolding revisits_def by blast
    with u(1) show ?thesis by blast
  next
    fix u assume u: "(v, u) \<in> refs vm" "(u, w) \<in> (refs vm)\<^sup>*"
    from u(2) w(2) have "revisits vm (insert v P) u" unfolding revisits_def by blast
    with u(1) show ?thesis by blast
  qed
next
  assume "\<exists>u. (v, u) \<in> refs vm \<and> revisits vm (insert v P) u"
  then obtain u w where u: "(v, u) \<in> refs vm" and w: "(u, w) \<in> (refs vm)\<^sup>*"
    "w \<in> insert v P \<or> (w, w) \<in> (refs vm)\<^sup>+"
    unfolding revisits_def by blast
  show "revisits vm P v"
  proof (cases "w = v")
    case True
    with u w(1) have "(v, v) \<in> (refs vm)\<^sup>+" by (meson rtrancl_into_trancl2)
    then show ?thesis unfolding revisits_def by blast
  next
    case False
    with w(2) have "w \<in> P \<or> (w, w) \<in> (refs vm)\<^sup>+" by simp
    moreover from u w(1) have "(v, w) \<in> (refs vm)\<^sup>*" by (meson converse_rtrancl_into_rtrancl)
    ultimately show ?thesis unfolding revisits_def by blast
  qed
qed

lemma detect_result:
  "fst (detectCircular v vm P st) = revisits vm P v"
  "fst (detect_loop v vm P ms st) = (\<exists>m\<in>set ms. revisits vm P (trim (group1 m)))"
proof (induction v vm P st and v vm P ms st rule: detectCircular_detect_loop.induct)
  case (1 varName vm path st)
  show ?case
  proof (cases "varName \<in> path")
    case True
    then show ?thesis by (simp add: detectCircular.simps revisits_on_path)
  next
    case nin: False
    show ?thesis
    proof (cases "map_of vm varName")
      case None
      with nin revisits_unmapped [OF None nin] show ?thesis by (simp add: detectCircular.simps)
    next
      case (Some val)
      have "fst (detectCircular varName vm path st) =
          (\<exists>m\<in>set (all_matches val 0). revisits vm (insert varName path) (trim (group1 m)))"
        using "1.IH" [OF nin Some] nin Some by (simp add: detectCircular.simps)
      also have "\<dots> = (\<exists>u. (varName, u) \<in> refs vm \<and> revisits vm (insert varName path) u)"
        unfolding refs_iff [OF Some] by blast
      also have "\<dots> = revisits vm path varName" by (rule revisits_step [OF nin, symmetric])
      finally show ?thesis .
    qed
  qed
next
  case (2 varName vm newPath st)
  show ?case by simp
next
  case (3 varName vm newPath m ms st)
  obtain found st' where r: "detectCircular (trim (group1 m)) vm newPath st = (found, st')"
    by (cases "detectCircular (trim (group1 m)) vm newPath st")
  from "3.IH"(1) r have f: "found = revisits vm newPath (trim (group1 m))" by simp
  show ?case
  proof (cases found)
    case True
    with r f show ?thesis by simp
  next
    case False
    from "3.IH"(2) [OF r [symmetric] refl False] r False f show ?thesis by simp
  qed
qed

lemma detect_adds:
  "circularRefs st \<subseteq> circularRefs (snd (detectCircular v vm P st)) \<and>
   (fst (detectCircular v vm P st) \<longrightarrow> v \<in> circularRefs (snd (detectCircular v vm P st)))"
  "circularRefs st \<subseteq> circularRefs (snd (detect_loop v vm P ms st)) \<and>
   (fst (detect_loop v vm P ms st) \<longrightarrow> v \<in> circularRefs (snd (detect_loop v vm P ms st)))"
proof (induction v vm P st and v vm P ms st rule: detectCircular_detect_loop.induct)
  case (1 varName vm path st)
  show ?case
  proof (cases "varName \<in> path")
    case True
    then show ?thesis by (auto simp: detectCircular.simps)
  next
    case nin: False
    show ?thesis
    proof (cases "map_of vm varName")
      case None
      with nin show ?thesis by (simp add: detectCircular.simps)
    next
      case (Some val)
      from "1.IH" [OF nin Some] nin Some show ?thesis by (simp add: detectCircular.simps)
    qed
  qed
next
  case (2 varName vm newPath st)
  show ?case by simp
next
  case (3 varName vm newPath m ms st)
  obtain found st' where r: "detectCircular (trim (group1 m)) vm newPath st = (found, st')"
    by (cases "detectCircular (trim (group1 m)) vm newPath st")
  from "3.IH"(1) r have a: "circularRefs st \<subseteq> circularRefs st'" by simp
  show ?case
  proof (cases found)
    case True
    with a r show ?thesis by auto
  next
    case False
    from "3.IH"(2) [OF r [symmetric] refl False] a r False show ?thesis by auto
  qed
qed

lemma revisits_drop_start:
  assumes "(v, x) \<in> (refs vm)\<^sup>+" and "revisits vm (insert v P) x"
  shows "revisits vm P x"
proof -
  from assms(2) obtain w where w: "(x, w) \<in> (refs vm)\<^sup>*"
    "w \<in> insert v P \<or> (w, w) \<in> (refs vm)\<^sup>+"
    unfolding revisits_def by blast
  show ?thesis
  proof (cases "w = v")
    case True
    with w(1) assms(1) have "(x, x) \<in> (refs vm)\<^sup>+" by (meson rtrancl_trancl_trancl)
    then show ?thesis unfolding revisits_def by blast
  next
    case False
    with w show ?thesis unfolding revisits_def by blast
  qed
qed

lemma detect_adds_only:
  "circularRefs (snd (detectCircular v vm P st)) \<subseteq>
     circularRefs st \<union> {x. (v, x) \<in> (refs vm)\<^sup>* \<and> revisits vm P x}"
  "circularRefs (snd (detect_loop v vm P ms st)) \<subseteq>
     circularRefs st \<union> {x. \<exists>m\<in>set ms. (trim (group1 m), x) \<in> (refs vm)\<^sup>* \<and> revisits vm P x}
       \<union> {x. x = v \<and> fst (detect_loop v vm P ms st)}"
proof (induction v vm P st and v vm P ms st rule: detectCircular_detect_loop.induct)
  case (1 varName vm path st)
  show ?case
  proof (cases "varName \<in> path")
    case True
    then show ?thesis by (auto simp: detectCircular.simps revisits_on_path)
  next
    case nin: False
    show ?thesis
    proof (cases "map_of vm varName")
      case None
      with nin show ?thesis by (simp add: detectCircular.simps)
    next
      case (Some val)
      let ?l = "detect_loop varName vm (insert varName path) (all_matches val 0) st"
      have eq: "detectCircular varName vm path st = ?l"
        using nin Some by (simp add: detectCircular.simps)
      show ?thesis
      proof
        fix x assume "x \<in> circularRefs (snd (detectCircular varName vm path st))"
        with "1.IH" [OF nin Some] eq consider
          (old) "x \<in> circularRefs st"
          | (below) m where "m \<in> set (all_matches val 0)"
              "(trim (group1 m), x) \<in> (refs vm)\<^sup>*" "revisits vm (insert varName path) x"
          | (self) "x = varName" "fst (detectCircular varName vm path st)"
          by auto
        then show "x \<in> circularRefs st \<union> {x. (varName, x) \<in> (refs vm)\<^sup>* \<and> revisits vm path x}"
        proof cases
          case old
          then show ?thesis by simp
        next
          case below
          from below(1) have "(varName, trim (group1 m)) \<in> refs vm"
            unfolding refs_iff [OF Some] by blast
          with below(2) have p: "(varName, x) \<in> (refs vm)\<^sup>+" by (meson rtrancl_into_trancl2)
          from revisits_drop_start [OF p below(3)] p show ?thesis
            by (simp add: trancl_into_rtrancl)
        next
          case self
          then show ?thesis by (simp add: detect_result(1))
        qed
      qed
    qed
  qed
next
  case (2 varName vm newPath st)
  show ?case by simp
next
  case (3 varName vm newPath m ms st)
  obtain found st' where r: "detectCircular (trim (group1 m)) vm newPath st = (found, st')"
    by (cases "detectCircular (trim (group1 m)) vm newPath st")
  from "3.IH"(1) r have a: "circularRefs st' \<subseteq>
     circularRefs st \<union> {x. (trim (group1 m), x) \<in> (refs vm)\<^sup>* \<and> revisits vm newPath x}" by simp
  show ?case
  proof (cases found)
    case True
    with a r show ?thesis by auto
  next
    case False
    from "3.IH"(2) [OF r [symmetric] refl False] r False
    have b: "circularRefs (snd (detect_loop varName vm newPath (m # ms) st)) \<subseteq>
       circularRefs st' \<union>
       {x. \<exists>m\<in>set ms. (trim (group1 m), x) \<in> (refs vm)\<^sup>* \<and> revisits vm newPath x} \<union>
       {x. x = varName \<and> fst (detect_loop varName vm newPath (m # ms) st)}"
      by simp
    show ?thesis
    proof
      fix x assume "x \<in> circularRefs (snd (detect_loop varName vm newPath (m # ms) st))"
      with b a show "x \<in> circularRefs st \<union>
         {x. \<exists>m\<in>set (m # ms). (trim (group1 m), x) \<in> (refs vm)\<^sup>* \<and> revisits vm newPath x} \<union>
         {x. x = varName \<and> fst (detect_loop varName vm newPath (m # ms) st)}"
        by auto
    qed
  qed
qed

lemma reaches_cycle_mapped:
  assumes "reaches_cycle vm k"
  shows "k \<in> fst ` set vm"
proof -
  from assms obtain w where w: "(k, w) \<in> (refs vm)\<^sup>*" "(w, w) \<in> (refs vm)\<^sup>+"
    unfolding reaches_cycle_def by blast
  have "\<exists>u. (k, u) \<in> refs vm"
    using w(1)
  proof (rule converse_rtranclE)
    assume "k = w"
    with w(2) show ?thesis by (meson tranclD)
  next
    fix u assume "(k, u) \<in> refs vm"
    then show ?thesis by blast
  qed
  then obtain val where "map_of vm k = Some val" unfolding refs_def by blast
  then have "(k, val) \<in> set vm" by (rule map_of_SomeD)
  then show ?thesis by force
qed

lemma revisits_empty: "revisits vm {} k = reaches_cycle vm k"
  by (simp add: revisits_def reaches_cycle_def)

lemma detect_fold_circularRefs:
  assumes "variableMap st = vm"
  shows "circularRefs st \<subseteq>
           circularRefs (fold (\<lambda>(varName, val) st. snd (detectCircular varName (variableMap st) {} st)) xs st)
       \<and> circularRefs (fold (\<lambda>(varName, val) st. snd (detectCircular varName (variableMap st) {} st)) xs st)
           \<subseteq> circularRefs st \<union> {k. reaches_cycle vm k}
       \<and> (\<forall>k\<in>fst ` set xs. reaches_cycle vm k \<longrightarrow>
             k \<in> circularRefs (fold (\<lambda>(varName, val) st. snd (detectCircular varName (variableMap st) {} st)) xs st))"
  using assms
proof (induction xs arbitrary: st)
  case Nil
  show ?case by simp
next
  case (Cons x xs)
  obtain k val where x: "x = (k, val)" by (cases x)
  let ?st1 = "snd (detectCircular k vm {} st)"
  let ?f = "\<lambda>(varName, val) st. snd (detectCircular varName (variableMap st) {} st)"
  have vm1: "variableMap ?st1 = vm"
    using detect_frame(1) [of k vm "{}" st] Cons.prems by simp
  have step: "fold ?f (x # xs) st = fold ?f xs ?st1"
    using Cons.prems by (simp add: x)
  from detect_adds(1) [of st k vm "{}"]
  have mono: "circularRefs st \<subseteq> circularRefs ?st1"
    and self: "reaches_cycle vm k \<longrightarrow> k \<in> circularRefs ?st1"
    by (simp_all add: detect_result(1) revisits_empty)
  from detect_adds_only(1) [of k vm "{}" st]
  have only: "circularRefs ?st1 \<subseteq> circularRefs st \<union> {k. reaches_cycle vm k}"
    by (auto simp: revisits_empty)
  from Cons.IH [OF vm1] have
    i1: "circularRefs ?st1 \<subseteq> circularRefs (fold ?f xs ?st1)"
    and i2: "circularRefs (fold ?f xs ?st1) \<subseteq> circularRefs ?st1 \<union> {k. reaches_cycle vm k}"
    and i3: "\<forall>k\<in>fst ` set xs. reaches_cycle vm k \<longrightarrow> k \<in> circularRefs (fold ?f xs ?st1)"
    by blast+
  show ?case unfolding step
  proof (intro conjI ballI impI)
    show "circularRefs st \<subseteq> circularRefs (fold ?f xs ?st1)" using mono i1 by blast
    show "circularRefs (fold ?f xs ?st1) \<subseteq> circularRefs st \<union> {k. reaches_cycle vm k}"
      using i2 only by blast
  next
    fix j assume j: "j \<in> fst ` set (x # xs)" "reaches_cycle vm j"
    show "j \<in> circularRefs (fold ?f xs ?st1)"
    proof (cases "j = k")
      case True
      with self j(2) i1 show ?thesis by blast
    next
      case False
      with j(1) x have "j \<in> fst ` set xs" by auto
      with i3 j(2) show ?thesis by blast
    qed
  qed
qed

lemma detect_all_circularRefs:
  "circularRefs (detect_all st) = circularRefs st \<union> {k. reaches_cycle (variableMap st) k}"
proof -
  let ?vm = "variableMap st"
  from detect_fold_circularRefs [OF refl, of st ?vm] have
    a: "circularRefs st \<subseteq> circularRefs (detect_all st)"
    and b: "circularRefs (detect_all st) \<subseteq> circularRefs st \<union> {k. reaches_cycle ?vm k}"
    and c: "\<forall>k\<in>fst ` set ?vm. reaches_cycle ?vm k \<longrightarrow> k \<in> circularRefs (detect_all st)"
    unfolding detect_all_def by blast+
  from c reaches_cycle_mapped have "{k. reaches_cycle ?vm k} \<subseteq> circularRefs (detect_all st)"
    by blast
  with a b show ?thesis by blast
qed

text \<open>
  Claim C3, as amended. When a walk meets a name that is on its current path, that name is
  added to the cycle set with a warning and the walk reports a cycle. Every frame whose walk
  reports a cycle adds its own name, and a frame reports a cycle as soon as the walk of one
  of its references does: so every name on the current path, back to the name the walk
  started from, is added, not only the names from the revisited one onward. After the loop
  over all keys the cycle set has gained exactly the names from which a cycle of the
  reference graph can be reached, the names that merely lead into a cycle included.
\<close>

theorem detector_marks_whole_path:
  "(v \<in> path \<longrightarrow>
      detectCircular v vm path st =
        (True, st\<lparr>circularRefs := insert v (circularRefs st),
                   warnings := warnings st @ [''Circular reference detected for variable '' @ v]\<rparr>))
   \<and> (fst (detectCircular v vm path st) \<longrightarrow> v \<in> circularRefs (snd (detectCircular v vm path st)))
   \<and> (v \<notin> path \<and> map_of vm v = Some val \<and> m \<in> set (all_matches val 0) \<and>
      fst (detectCircular (trim (group1 m)) vm (insert v path) st') \<longrightarrow>
        fst (detectCircular v vm path st))
   \<and> circularRefs (detect_all st) = circularRefs st \<union> {k. reaches_cycle (variableMap st) k}"
proof (intro conjI impI)
  assume "v \<in> path"
  then show "detectCircular v vm path st =
        (True, st\<lparr>circularRefs := insert v (circularRefs st),
                   warnings := warnings st @ [''Circular reference detected for variable '' @ v]\<rparr>)"
    by (simp add: detectCircular.simps warn_def)
next
  assume "fst (detectCircular v vm path st)"
  with detect_adds(1) [of st v vm path]
  show "v \<in> circularRefs (snd (detectCircular v vm path st))" by simp
next
  assume a: "v \<notin> path \<and> map_of vm v = Some val \<and> m \<in> set (all_matches val 0) \<and>
      fst (detectCircular (trim (group1 m)) vm (insert v path) st')"
  then have nin: "v \<notin> path" and val: "map_of vm v = Some val"
    and m: "m \<in> set (all_matches val 0)"
    and below: "revisits vm (insert v path) (trim (group1 m))"
    by (simp_all add: detect_result(1))
  from m have "(v, trim (group1 m)) \<in> refs vm" unfolding refs_iff [OF val] by blast
  with below have "revisits vm path v" unfolding revisits_step [OF nin] by blast
  then show "fst (detectCircular v vm path st)" by (simp add: detect_result(1))
next
  show "circularRefs (detect_all st) = circularRefs st \<union> {k. reaches_cycle (variableMap st) k}"
    by (rule detect_all_circularRefs)
qed

text \<open>The mapping \<open>--c: var(--a); --a: var(--b); --b: var(--a)\<close>: \<open>--c\<close> leads into the cycle of \<open>--a\<close> and \<open>--b\<close>.\<close>

definition vm_lead_in :: variable_map where
  "vm_lead_in = [(''--c'', ''var(--a)''), (''--a'', ''var(--b)''), (''--b'', ''var(--a)'')]"

lemma refs_lead_in:
  "refs vm_lead_in \<subseteq> {(''--c'', ''--a''), (''--a'', ''--b''), (''--b'', ''--a'')}"
proof -
  have a: "all_matches ''var(--a)'' 0 =
      [\<lparr>m_index = 0, fullMatch = ''var(--a)'', group1 = ''--a'', group2 = None\<rparr>]" by code_simp
  have b: "all_matches ''var(--b)'' 0 =
      [\<lparr>m_index = 0, fullMatch = ''var(--b)'', group1 = ''--b'', group2 = None\<rparr>]" by code_simp
  have ta: "trim ''--a'' = ''--a''" by code_simp
  have tb: "trim ''--b'' = ''--b''" by code_simp
  show ?thesis
    unfolding refs_def vm_lead_in_def
    by (auto simp: a b ta tb split: if_splits)
qed

text \<open>
  The claim as written fails at this mapping: \<open>--c\<close> is on no cycle, and the detector adds it
  to the cycle set. The walk started at \<open>--c\<close> goes to \<open>--a\<close>, to \<open>--b\<close> and meets \<open>--a\<close> again; on
  the way back the frames of \<open>--b\<close>, \<open>--a\<close> and \<open>--c\<close> each add their own name.
\<close>

theorem lead_in_variable_is_marked_counterexample:
  "''--c'' \<in> circularRefs (detect_all (initial_state\<lparr>variableMap := vm_lead_in\<rparr>))
   \<and> (''--c'', ''--c'') \<notin> (refs vm_lead_in)\<^sup>+"
proof
  show "''--c'' \<in> circularRefs (detect_all (initial_state\<lparr>variableMap := vm_lead_in\<rparr>))"
    by code_simp
next
  show "(''--c'', ''--c'') \<notin> (refs vm_lead_in)\<^sup>+"
  proof
    assume "(''--c'', ''--c'') \<in> (refs vm_lead_in)\<^sup>+"
    then obtain y where "(y, ''--c'') \<in> refs vm_lead_in" by (meson tranclD2)
    with refs_lead_in show False by auto
  qed
qed

text \<open>The parts of the theorem at the same mapping.\<close>

theorem detector_marks_whole_path_witness:
  "detectCircular ''--a'' vm_lead_in {''--c'', ''--a'', ''--b''} initial_state =
      (True, initial_state\<lparr>circularRefs := {''--a''},
                 warnings := [''Circular reference detected for variable --a'']\<rparr>)
   \<and> ''--b'' \<in> circularRefs (snd (detectCircular ''--b'' vm_lead_in {''--c'', ''--a''} initial_state))
   \<and> fst (detectCircular ''--c'' vm_lead_in {} initial_state)
   \<and> circularRefs (detect_all (initial_state\<lparr>variableMap := vm_lead_in\<rparr>)) =
       {k. reaches_cycle vm_lead_in k}"
proof -
  note T = detector_marks_whole_path
  have h1: "''--a'' \<in> {''--c'', ''--a'', ''--b''}" by simp
  have a: "detectCircular ''--a'' vm_lead_in {''--c'', ''--a'', ''--b''} initial_state =
      (True, initial_state\<lparr>circularRefs := insert ''--a'' (circularRefs initial_state),
         warnings := warnings initial_state @ [''Circular reference detected for variable '' @ ''--a'']\<rparr>)"
    by (rule mp [OF conjunct1 [OF T] h1])
  have h2: "fst (detectCircular ''--b'' vm_lead_in {''--c'', ''--a''} initial_state)" by code_simp
  have b: "''--b'' \<in> circularRefs (snd (detectCircular ''--b'' vm_lead_in {''--c'', ''--a''} initial_state))"
    by (rule mp [OF conjunct1 [OF conjunct2 [OF T]] h2])
  have h3: "''--c'' \<notin> {} \<and> map_of vm_lead_in ''--c'' = Some ''var(--a)'' \<and>
      \<lparr>m_index = 0, fullMatch = ''var(--a)'', group1 = ''--a'', group2 = None\<rparr>
         \<in> set (all_matches ''var(--a)'' 0) \<and>
      fst (detectCircular
         (trim (group1 \<lparr>m_index = 0, fullMatch = ''var(--a)'', group1 = ''--a'', group2 = None\<rparr>))
         vm_lead_in (insert ''--c'' {}) initial_state)" by code_simp
  have c: "fst (detectCircular ''--c'' vm_lead_in {} initial_state)"
    by (rule mp [OF conjunct1 [OF conjunct2 [OF conjunct2 [OF T]]] h3])
  have d: "circularRefs (detect_all (initial_state\<lparr>variableMap := vm_lead_in\<rparr>)) =
       circularRefs (initial_state\<lparr>variableMap := vm_lead_in\<rparr>) \<union>
         {k. reaches_cycle (variableMap (initial_state\<lparr>variableMap := vm_lead_in\<rparr>)) k}"
    by (rule conjunct2 [OF conjunct2 [OF conjunct2 [OF T]]])
  from a have a': "detectCircular ''--a'' vm_lead_in {''--c'', ''--a'', ''--b''} initial_state =
      (True, initial_state\<lparr>circularRefs := {''--a''},
                 warnings := [''Circular reference detected for variable --a'']\<rparr>)"
    by (simp add: initial_state_def)
  from d have d': "circularRefs (detect_all (initial_state\<lparr>variableMap := vm_lead_in\<rparr>)) =
       {k. reaches_cycle vm_lead_in k}"
    by (simp add: initial_state_def)
  from a' b c d' show ?thesis by (intro conjI)
qed

section \<open>Termination and the depth of the recursion\<close>

text \<open>
  \<open>resolveVariable\<close> and \<open>detectCircular\<close> above are total: their termination proofs rest on
  the number of keys of the mapping that are not yet in \<open>resolving\<close> (or on \<open>path\<close>), which
  drops by one with every nested call, since a nested call is made only for a name that has
  an entry and is not in the set, and that name is then added to the set.

  To bound the depth of the call stack, the two functions are written once more with a
  budget for the number of nested calls: every call of the function needs one unit, the
  loop passes on what is left, and \<open>None\<close> says that a call was needed when the budget was used
  up. Apart from the budget the text of the functions is the same.
\<close>

function resolveVariable_depth ::
    "nat \<Rightarrow> string \<Rightarrow> variable_map \<Rightarrow> string set \<Rightarrow> bool \<Rightarrow> plugin_state \<Rightarrow>
       (string option \<times> plugin_state) option"
  and resolve_loop_depth ::
    "nat \<Rightarrow> variable_map \<Rightarrow> string set \<Rightarrow> bool \<Rightarrow> rmatch list \<Rightarrow> string \<Rightarrow> plugin_state \<Rightarrow>
       (string \<times> plugin_state) option"
where
  "resolveVariable_depth 0 varName vm resolving result st = None"
| "resolveVariable_depth (Suc depth) varName vm resolving result st =
     (if varName \<in> resolving then
        Some (None,
          if result then warn (''Circular reference detected for variable '' @ varName) st
          else st)
      else
        (case map_of vm varName of
           None \<Rightarrow> Some (None, st)
         | Some val \<Rightarrow>
             (case map_of (variableCache st) (cacheKey varName vm) of
                Some cached \<Rightarrow> Some (Some cached, st)
              | None \<Rightarrow>
                  (case resolve_loop_depth depth vm (insert varName resolving) result
                          (all_matches val 0) val st of
                     None \<Rightarrow> None
                   | Some (resolvedValue, st') \<Rightarrow>
                       Some (Some resolvedValue,
                         st'\<lparr>variableCache :=
                               AList.update (cacheKey varName vm) resolvedValue
                                 (variableCache st')\<rparr>)))))"
| "resolve_loop_depth depth vm resolving result [] resolvedValue st = Some (resolvedValue, st)"
| "resolve_loop_depth depth vm resolving result (m # ms) resolvedValue st =
     (case resolveVariable_depth depth (trim (group1 m)) vm resolving result st of
        None \<Rightarrow> None
      | Some (nestedResolvedValue, st') \<Rightarrow>
          resolve_loop_depth depth vm resolving result ms
            (case nestedResolvedValue of
               Some nested \<Rightarrow> replace resolvedValue (fullMatch m) nested
             | None \<Rightarrow>
                 (case group2 m of
                    Some fallback \<Rightarrow>
                      if fallback \<noteq> [] then replace resolvedValue (fullMatch m) (trim fallback)
                      else resolvedValue
                  | None \<Rightarrow> resolvedValue))
            st')"
  by pat_completeness auto
termination
  by (relation "inv_image (less_than <*lex*> less_than <*lex*> less_than)
     (\<lambda>x. case x of
        Inl (depth, varName, vm, resolving, result, st) \<Rightarrow> (depth, 0, 0)
      | Inr (depth, vm, resolving, result, ms, rv, st) \<Rightarrow> (depth, 1, length ms))")
    auto

function detectCircular_depth ::
    "nat \<Rightarrow> string \<Rightarrow> variable_map \<Rightarrow> string set \<Rightarrow> plugin_state \<Rightarrow> (bool \<times> plugin_state) option"
  and detect_loop_depth ::
    "nat \<Rightarrow> string \<Rightarrow> variable_map \<Rightarrow> string set \<Rightarrow> rmatch list \<Rightarrow> plugin_state \<Rightarrow>
       (bool \<times> plugin_state) option"
where
  "detectCircular_depth 0 varName vm path st = None"
| "detectCircular_depth (Suc depth) varName vm path st =
     (if varName \<in> path then
        Some (True,
          warn (''Circular reference detected for variable '' @ varName)
            (st\<lparr>circularRefs := insert varName (circularRefs st)\<rparr>))
      else
        (case map_of vm varName of
           None \<Rightarrow> Some (False, st)
         | Some val \<Rightarrow>
             detect_loop_depth depth varName vm (insert varName path) (all_matches val 0) st))"
| "detect_loop_depth depth varName vm newPath [] st = Some (False, st)"
| "detect_loop_depth depth varName vm newPath (m # ms) st =
     (case detectCircular_depth depth (trim (group1 m)) vm newPath st of
        None \<Rightarrow> None
      | Some (found, st') \<Rightarrow>
          if found then Some (True, st'\<lparr>circularRefs := insert varName (circularRefs st')\<rparr>)
          else detect_loop_depth depth varName vm newPath ms st')"
  by pat_completeness auto
termination
  by (relation "inv_image (less_than <*lex*> less_than <*lex*> less_than)
     (\<lambda>x. case x of
        Inl (depth, varName, vm, path, st) \<Rightarrow> (depth, 0, 0)
      | Inr (depth, varName, vm, newPath, ms, st) \<Rightarrow> (depth, 1, length ms))")
    auto

lemma card_unvisited_insert:
  assumes "map_of vm v = Some x" and "v \<notin> R" and "card (fst ` set vm - R) < Suc n"
  shows "card (fst ` set vm - insert v R) < n"
  using card_unvisited_less [OF assms(1,2)] assms(3) by simp

lemma resolve_depth_enough:
  "card (fst ` set vm - R) < n \<Longrightarrow>
     resolveVariable_depth n v vm R r st = Some (resolveVariable v vm R r st)"
  "card (fst ` set vm - R) < n \<Longrightarrow>
     resolve_loop_depth n vm R r ms rv st = Some (resolve_loop vm R r ms rv st)"
proof (induction v vm R r st and vm R r ms rv st arbitrary: n and n
    rule: resolveVariable_resolve_loop.induct)
  case (1 varName vm resolving result st)
  from "1.prems" obtain k where n: "n = Suc k" by (cases n) simp_all
  show ?case
  proof (cases "varName \<in> resolving")
    case True
    then show ?thesis by (simp add: n resolveVariable.simps)
  next
    case nin: False
    show ?thesis
    proof (cases "map_of vm varName")
      case None
      with nin show ?thesis by (simp add: n resolveVariable.simps)
    next
      case (Some val)
      show ?thesis
      proof (cases "map_of (variableCache st) (cacheKey varName vm)")
        case c: (Some cached)
        with nin Some show ?thesis by (simp add: n resolveVariable.simps)
      next
        case c: None
        from card_unvisited_insert [OF Some nin] "1.prems" n
        have "card (fst ` set vm - insert varName resolving) < k" by simp
        from "1.IH" [OF nin Some c this] nin Some c show ?thesis
          by (simp add: n resolveVariable.simps split: prod.splits)
      qed
    qed
  qed
next
  case (2 vm resolving result resolvedValue st)
  show ?case by simp
next
  case (3 vm resolving result m ms resolvedValue st)
  obtain nested st' where r: "resolveVariable (trim (group1 m)) vm resolving result st = (nested, st')"
    by (cases "resolveVariable (trim (group1 m)) vm resolving result st")
  from "3.IH"(1) [OF "3.prems"] r
  have a: "resolveVariable_depth n (trim (group1 m)) vm resolving result st = Some (nested, st')"
    by simp
  from "3.IH"(2) [OF r [symmetric] refl "3.prems"] a r show ?case by simp
qed

lemma detect_depth_enough:
  "card (fst ` set vm - P) < n \<Longrightarrow>
     detectCircular_depth n v vm P st = Some (detectCircular v vm P st)"
  "card (fst ` set vm - P) < n \<Longrightarrow>
     detect_loop_depth n v vm P ms st = Some (detect_loop v vm P ms st)"
proof (induction v vm P st and v vm P ms st arbitrary: n and n
    rule: detectCircular_detect_loop.induct)
  case (1 varName vm path st)
  from "1.prems" obtain k where n: "n = Suc k" by (cases n) simp_all
  show ?case
  proof (cases "varName \<in> path")
    case True
    then show ?thesis by (simp add: n detectCircular.simps)
  next
    case nin: False
    show ?thesis
    proof (cases "map_of vm varName")
      case None
      with nin show ?thesis by (simp add: n detectCircular.simps)
    next
      case (Some val)
      from card_unvisited_insert [OF Some nin] "1.prems" n
      have "card (fst ` set vm - insert varName path) < k" by simp
      from "1.IH" [OF nin Some this] nin Some show ?thesis
        by (simp add: n detectCircular.simps)
    qed
  qed
next
  case (2 varName vm newPath st)
  show ?case by simp
next
  case (3 varName vm newPath m ms st)
  obtain found st' where r: "detectCircular (trim (group1 m)) vm newPath st = (found, st')"
    by (cases "detectCircular (trim (group1 m)) vm newPath st")
  from "3.IH"(1) [OF "3.prems"] r
  have a: "detectCircular_depth n (trim (group1 m)) vm newPath st = Some (found, st')"
    by simp
  show ?case
  proof (cases found)
    case True
    with a r show ?thesis by simp
  next
    case False
    from "3.IH"(2) [OF r [symmetric] refl False "3.prems"] a r False show ?thesis by simp
  qed
qed

text \<open>
  Claim C4. For every mapping, every name and every state, a walk of the detector and a
  resolution started with an empty path return, and their call stacks never hold more than
  one frame per entry of the mapping plus one (the last frame is the call that finds its
  name on the path, or without an entry): with a budget above the number of entries the
  budgeted functions never run out and return what the total functions return. This holds
  for cyclic mappings as for acyclic ones, since a name on the current path ends the
  descent.
\<close>

theorem detection_and_resolution_terminate:
  "length vm < depth \<Longrightarrow>
     detectCircular_depth depth v vm {} st = Some (detectCircular v vm {} st) \<and>
     resolveVariable_depth depth v vm {} result st = Some (resolveVariable v vm {} result st)"
proof -
  assume d: "length vm < depth"
  have "card (fst ` set vm) \<le> card (set vm)" by (rule card_image_le) simp
  also have "\<dots> \<le> length vm" by (rule card_length)
  finally have "card (fst ` set vm - {}) < depth" using d by simp
  then show ?thesis by (simp add: detect_depth_enough(1) resolve_depth_enough(1))
qed

text \<open>
  The cycle \<open>--a: var(--b); --b: var(--a)\<close> with a budget of three calls: the detector reports
  the cycle, and the resolver returns with one warning.
\<close>

theorem detection_and_resolution_terminate_witness:
  "detectCircular_depth 3 ''--a'' [(''--a'', ''var(--b)''), (''--b'', ''var(--a)'')] {} initial_state
     = Some (True, initial_state\<lparr>circularRefs := {''--a'', ''--b''},
                warnings := [''Circular reference detected for variable --a'']\<rparr>)
   \<and> resolveVariable_depth 3 ''--a'' [(''--a'', ''var(--b)''), (''--b'', ''var(--a)'')] {} True
        initial_state
     = Some (Some ''var(--a)'',
         initial_state\<lparr>variableCache :=
             [(''--b--a,var(--b),--b,var(--a)'', ''var(--a)''),
              (''--a--a,var(--b),--b,var(--a)'', ''var(--a)'')],
           warnings := [''Circular reference detected for variable --a'']\<rparr>)"
proof -
  let ?vm = "[(''--a'', ''var(--b)''), (''--b'', ''var(--a)'')]"
  have h: "length ?vm < 3" by simp
  note T = detection_and_resolution_terminate [OF h, of "''--a''" initial_state True]
  have d: "detectCircular ''--a'' ?vm {} initial_state
     = (True, initial_state\<lparr>circularRefs := {''--a'', ''--b''},
                warnings := [''Circular reference detected for variable --a'']\<rparr>)"
    by code_simp
  have r: "resolveVariable ''--a'' ?vm {} True initial_state
     = (Some ''var(--a)'',
         initial_state\<lparr>variableCache :=
             [(''--b--a,var(--b),--b,var(--a)'', ''var(--a)''),
              (''--a--a,var(--b),--b,var(--a)'', ''var(--a)'')],
           warnings := [''Circular reference detected for variable --a'']\<rparr>)"
    by code_simp
  from T show ?thesis unfolding d r .
qed

section \<open>Running the transform on its own output\<close>

text \<open>
  Claim C5 fails on the code. With \<open>--c: rgba(0,0,0,.5)\<close> the first run turns \<open>var(--c)\<close> into
  \<open>var(--c, rgba(0,0,0,.5))\<close>. In the second run the pattern takes the fallback clause up to
  the first \<open>)\<close>, so the match is \<open>var(--c, rgba(0,0,0,.5)\<close>; it is replaced by the full
  \<open>var(--c, rgba(0,0,0,.5))\<close>, and the \<open>)\<close> left over after the match is copied behind it.
  Every further run adds one more \<open>)\<close>. The second run below starts from the state the first
  one left.
\<close>

theorem rerun_appends_parenthesis:
  "fst (Once (files_env [(''vars.css'', [\<lparr>d_prop = ''--c'', d_value = ''rgba(0,0,0,.5)''\<rparr>])])
          (Array [''vars.css''])
          [\<lparr>d_prop = ''color'', d_value = ''var(--c)''\<rparr>] initial_state)
     = [\<lparr>d_prop = ''color'', d_value = ''var(--c, rgba(0,0,0,.5))''\<rparr>]
   \<and> fst (Once (files_env [(''vars.css'', [\<lparr>d_prop = ''--c'', d_value = ''rgba(0,0,0,.5)''\<rparr>])])
          (Array [''vars.css''])
          (fst (Once (files_env [(''vars.css'', [\<lparr>d_prop = ''--c'', d_value = ''rgba(0,0,0,.5)''\<rparr>])])
             (Array [''vars.css''])
             [\<lparr>d_prop = ''color'', d_value = ''var(--c)''\<rparr>] initial_state))
          (snd (Once (files_env [(''vars.css'', [\<lparr>d_prop = ''--c'', d_value = ''rgba(0,0,0,.5)''\<rparr>])])
             (Array [''vars.css''])
             [\<lparr>d_prop = ''color'', d_value = ''var(--c)''\<rparr>] initial_state)))
     = [\<lparr>d_prop = ''color'', d_value = ''var(--c, rgba(0,0,0,.5)))''\<rparr>]"
  by code_simp

section \<open>A computed fallback replaces the author's\<close>




section \<open>Unknown variables\<close>



section \<open>An invalid \<open>fallbacks\<close> option\<close>

text \<open>
  Claim C8. When the option is missing, \<open>null\<close> or not an array, the run returns the document
  as it was and adds the one warning \<open>Fallbacks must be an array of file paths\<close>; nothing else
  of the state changes. The empty array, which is what "no fallbacks configured" gives, has
  the same result. \<open>Once\<close> has no failing result at all: the only exceptions the code can
  meet are thrown while a file is loaded, inside the \<open>try\<close> block of the loop.
\<close>

theorem invalid_fallbacks_degrade:
  "Once e Undefined root st = (root, st\<lparr>warnings := warnings st @ [''Fallbacks must be an array of file paths'']\<rparr>)
   \<and> Once e Null root st = (root, st\<lparr>warnings := warnings st @ [''Fallbacks must be an array of file paths'']\<rparr>)
   \<and> Once e NotArray root st = (root, st\<lparr>warnings := warnings st @ [''Fallbacks must be an array of file paths'']\<rparr>)
   \<and> Once e (Array []) root st = (root, st\<lparr>warnings := warnings st @ [''Fallbacks must be an array of file paths'']\<rparr>)"
  by (simp add: Once_def warn_def)

section \<open>The mapping is frozen after merging\<close>

text \<open>
  Claim C9. The state carries the mapping, and neither the detector (one walk, or the loop
  over all keys), nor the resolver, nor the rewriter (one declaration, or the whole document)
  returns a state with another mapping than the one it was given. So the mapping at the end
  of a run is the one the merge loop built, and every \<open>resolveVariable\<close> call of the rewriter,
  which reads the mapping from the state it is in, is given that same mapping.
\<close>

theorem frozen_mapping:
  "variableMap (snd (detectCircular v (variableMap st) path st)) = variableMap st
   \<and> variableMap (detect_all st) = variableMap st
   \<and> variableMap (snd (resolveVariable v (variableMap st) resolving result st)) = variableMap st
   \<and> variableMap (snd (rewrite_decl d st)) = variableMap st
   \<and> variableMap (snd (walkDecls rewrite_decl root st)) = variableMap st
   \<and> variableMap (snd (Once e (Array (p # ps)) root st)) =
       variableMap (fold (merge_fallback e) (p # ps)
         (st\<lparr>fileCache := [], variableCache := [], variableMap := []\<rparr>))"
proof -
  have "variableMap (snd (Once e (Array (p # ps)) root st)) =
       variableMap (fold (merge_fallback e) (p # ps)
         (st\<lparr>fileCache := [], variableCache := [], variableMap := []\<rparr>))"
    unfolding Once_def Let_def
    by (simp only: js_fallbacks.case list.case walkDecls_frame detect_all_variableMap)
       simp
  then show ?thesis
    using detect_frame(1) [of v "variableMap st" path st] detect_all_variableMap [of st]
      resolve_frame(1) [of v "variableMap st" resolving result st]
      rewrite_decl_frame [of d st] walkDecls_frame [of root st]
    by blast
qed

section \<open>A variable that resolves to the empty string\<close>

text \<open>
  Claim C10. The rewriter tests \<open>if (resolvedValue)\<close>. When the resolver returns the empty
  string for a name outside the cycle set, the loop does what it does when the resolver
  returns \<open>null\<close>: it appends the matched text and does not set \<open>modified\<close>.
\<close>

theorem empty_string_treated_as_unresolved:
  assumes "trim (group1 m) \<notin> circularRefs st"
    and "resolveVariable (trim (group1 m)) (variableMap st) {} True st = (r, st')"
    and "r = Some [] \<or> r = None"
  shows "rewrite_loop val (m # ms) lastIndex newValue modified st =
         rewrite_loop val ms (m_index m + length (fullMatch m))
           (newValue @ slice val lastIndex (m_index m) @ fullMatch m) modified st'"
proof -
  from assms(3) have "\<not> truthy r" by (auto simp: truthy_def)
  with assms(1,2) show ?thesis by (rule rewrite_loop_unresolved)
qed

text \<open>\<open>--e: var(--u, )\<close> resolves to the empty string, and \<open>var(--e)\<close> is copied.\<close>

theorem empty_string_treated_as_unresolved_witness:
  "fst (rewrite_loop ''var(--e)''
          [\<lparr>m_index = 0, fullMatch = ''var(--e)'', group1 = ''--e'', group2 = None\<rparr>] 0 [] False
          (initial_state\<lparr>variableMap := [(''--e'', ''var(--u, )'')]\<rparr>))
     = (8, ''var(--e)'', False)"
proof -
  let ?st = "initial_state\<lparr>variableMap := [(''--e'', ''var(--u, )'')]\<rparr>"
  let ?m = "\<lparr>m_index = 0, fullMatch = ''var(--e)'', group1 = ''--e'', group2 = None\<rparr>"
  let ?st' = "?st\<lparr>variableCache := [(''--e--e,var(--u, )'', [])]\<rparr>"
  have h1: "trim (group1 ?m) \<notin> circularRefs ?st" by code_simp
  have h2: "resolveVariable (trim (group1 ?m)) (variableMap ?st) {} True ?st = (Some [], ?st')"
    by code_simp
  have h3: "Some [] = Some ([]::string) \<or> Some [] = (None::string option)" by simp
  from empty_string_treated_as_unresolved [OF h1 h2 h3, of "''var(--e)''" "[]" 0 "[]" False]
  show ?thesis by (simp add: slice_def)
qed

end
